theory Spec2Isabelle
  imports Complex_Main
begin

section \<open>Text: characters, case folding, substrings\<close>

text \<open>
  The analyser of \<^verbatim>\<open>resumeeee.py\<close> works on Python \<^verbatim>\<open>str\<close> values. A text
  is modelled as a \<^typ>\<open>string\<close>, every \<^typ>\<open>char\<close> standing for the Unicode code
  point of the same number (0 to 255). The character classes below are those of Python 3
  on these code points: \<^verbatim>\<open>str.isspace\<close> and the pattern \<^verbatim>\<open>\s\<close>, the pattern
  \<^verbatim>\<open>\d\<close>, the pattern \<^verbatim>\<open>\w\<close>, and \<^verbatim>\<open>str.lower\<close>. A text with a code
  point above 255 is outside this model.
\<close>

definition code_point :: "char \<Rightarrow> nat" where
  "code_point c = of_char c"

definition is_space :: "char \<Rightarrow> bool" where
  "is_space c =
     (let n = code_point c
      in (9 \<le> n \<and> n \<le> 13) \<or> (28 \<le> n \<and> n \<le> 32) \<or> n = 133 \<or> n = 160)"

definition is_digit :: "char \<Rightarrow> bool" where
  "is_digit c = (let n = code_point c in 48 \<le> n \<and> n \<le> 57)"

definition is_word_char :: "char \<Rightarrow> bool" where
  "is_word_char c =
     (let n = code_point c
      in (48 \<le> n \<and> n \<le> 57) \<or> (65 \<le> n \<and> n \<le> 90) \<or> n = 95 \<or> (97 \<le> n \<and> n \<le> 122)
         \<or> n = 170 \<or> n = 178 \<or> n = 179 \<or> n = 181 \<or> n = 185 \<or> n = 186
         \<or> (188 \<le> n \<and> n \<le> 190) \<or> (192 \<le> n \<and> n \<le> 214)
         \<or> (216 \<le> n \<and> n \<le> 246) \<or> (248 \<le> n \<and> n \<le> 255))"

definition lower_char :: "char \<Rightarrow> char" where
  "lower_char c =
     (let n = code_point c
      in if (65 \<le> n \<and> n \<le> 90) \<or> (192 \<le> n \<and> n \<le> 214) \<or> (216 \<le> n \<and> n \<le> 222)
         then char_of (n + 32) else c)"

definition lower :: "string \<Rightarrow> string" where
  "lower s = map lower_char s"

text \<open>\<^verbatim>\<open>s.startswith(p)\<close>, \<^verbatim>\<open>s.endswith(p)\<close> and \<^verbatim>\<open>sub in s\<close>.\<close>

fun startswith :: "string \<Rightarrow> string \<Rightarrow> bool" where
  "startswith s [] = True"
| "startswith [] (p # ps) = False"
| "startswith (c # cs) (p # ps) = (c = p \<and> startswith cs ps)"

definition endswith :: "string \<Rightarrow> string \<Rightarrow> bool" where
  "endswith s p = startswith (rev s) (rev p)"

fun str_in :: "string \<Rightarrow> string \<Rightarrow> bool" where
  "str_in sub [] = (sub = [])"
| "str_in sub (c # cs) = (startswith (c # cs) sub \<or> str_in sub cs)"

text \<open>\<^verbatim>\<open>s.split()\<close>: the maximal runs of characters that are not whitespace, in order.
  The first argument is the token being read.\<close>

fun split_from :: "string \<Rightarrow> string \<Rightarrow> string list" where
  "split_from cur [] = (if cur = [] then [] else [cur])"
| "split_from cur (c # cs) =
     (if is_space c then (if cur = [] then split_from [] cs else cur # split_from [] cs)
      else split_from (cur @ [c]) cs)"

definition split :: "string \<Rightarrow> string list" where
  "split s = split_from [] s"

section \<open>Regular expressions\<close>

text \<open>
  The four patterns of the program are sequences of character classes, each with a greedy
  repetition count: \<open>Rep cls lo hi\<close> matches between \<open>lo\<close> and \<open>hi\<close> characters of the
  class \<open>cls\<close> (no upper bound when \<open>hi\<close> is \<open>None\<close>), the longest run first, giving
  characters back one at a time when the rest of the pattern fails, as the backtracking
  matcher of the \<^verbatim>\<open>re\<close> module does.
\<close>

datatype piece = Rep "char \<Rightarrow> bool" nat "nat option"

type_synonym regex = "piece list"

text \<open>The texts that may remain after one piece, in the order the matcher tries them.\<close>

fun piece_ends :: "piece \<Rightarrow> string \<Rightarrow> string list" where
  "piece_ends (Rep cls lo hi) s =
     (let n = length (takeWhile cls s);
          m = (case hi of None \<Rightarrow> n | Some h \<Rightarrow> min h n)
      in map (\<lambda>k. drop k s) (rev [lo ..< Suc m]))"

declare piece_ends.simps [simp del]

fun first_success :: "('a \<Rightarrow> 'b option) \<Rightarrow> 'a list \<Rightarrow> 'b option" where
  "first_success f [] = None"
| "first_success f (x # xs) = (case f x of Some y \<Rightarrow> Some y | None \<Rightarrow> first_success f xs)"

text \<open>\<open>match_here r s\<close> matches \<open>r\<close> at the start of \<open>s\<close> and returns the text left
  after the match the backtracking matcher finds first.\<close>

fun match_here :: "regex \<Rightarrow> string \<Rightarrow> string option" where
  "match_here [] s = Some s"
| "match_here (p # ps) s = first_success (match_here ps) (piece_ends p s)"

text \<open>What a pattern means: \<open>matches r u\<close> holds when the whole of \<open>u\<close> is a
  match of \<open>r\<close>, the piece at the head of \<open>r\<close> taking the first \<open>k\<close> characters.
  The backtracking matcher finds a match where one exists (lemmas
  \<open>match_here_sound\<close> and \<open>match_here_complete\<close> below).\<close>

fun allows :: "nat option \<Rightarrow> nat \<Rightarrow> bool" where
  "allows None k = True"
| "allows (Some h) k = (k \<le> h)"

fun matches :: "regex \<Rightarrow> string \<Rightarrow> bool" where
  "matches [] u = (u = [])"
| "matches (Rep cls lo hi # ps) u =
     (\<exists>k \<in> {lo .. length u}.
        allows hi k \<and> list_all cls (take k u) \<and> matches ps (drop k u))"

text \<open>\<^verbatim>\<open>re.search(r, s)\<close>: the leftmost match, as the matched text, or \<open>None\<close>.\<close>

fun re_search :: "regex \<Rightarrow> string \<Rightarrow> string option" where
  "re_search r [] = (case match_here r [] of Some rest \<Rightarrow> Some [] | None \<Rightarrow> None)"
| "re_search r (c # cs) =
     (case match_here r (c # cs) of
        Some rest \<Rightarrow> Some (take (length (c # cs) - length rest) (c # cs))
      | None \<Rightarrow> re_search r cs)"

declare re_search.simps [simp del]

text \<open>\<^verbatim>\<open>re.findall(r, s)\<close>: the matches found scanning from left to right, each search
  starting where the previous match ended; after an empty match, and where nothing matches,
  the scan moves on by one character.\<close>

function re_findall :: "regex \<Rightarrow> string \<Rightarrow> string list" where
  "re_findall r s =
     (case match_here r s of
        Some rest \<Rightarrow>
          (if length rest < length s
           then take (length s - length rest) s # re_findall r rest
           else [] # (case s of [] \<Rightarrow> [] | c # cs \<Rightarrow> re_findall r cs))
      | None \<Rightarrow> (case s of [] \<Rightarrow> [] | c # cs \<Rightarrow> re_findall r cs))"
  by pat_completeness auto
termination
  by (relation "measure (\<lambda>(r, s). length s)") auto

declare re_findall.simps [simp del]

text \<open>The patterns of the program:
  \<^verbatim>\<open>[.!?]\<close>, \<^verbatim>\<open>\w+\<close>, \<^verbatim>\<open>[aeiouyAEIOUY]\<close>, \<^verbatim>\<open>\S+@\S+\.\S+\<close> and
  \<^verbatim>\<open>\+?\d[\d\s-]{8,}\d\<close>.\<close>

definition one :: "(char \<Rightarrow> bool) \<Rightarrow> piece" where
  "one cls = Rep cls 1 (Some 1)"

definition sentence_end_re :: regex where
  "sentence_end_re = [one (\<lambda>c. c = CHR ''.'' \<or> c = CHR ''!'' \<or> c = CHR ''?'')]"

definition word_re :: regex where
  "word_re = [Rep is_word_char 1 None]"

definition is_vowel :: "char \<Rightarrow> bool" where
  "is_vowel c = (c \<in> set ''aeiouyAEIOUY'')"

definition vowel_re :: regex where
  "vowel_re = [one is_vowel]"

definition non_space :: "char \<Rightarrow> bool" where
  "non_space c = (\<not> is_space c)"

definition email_re :: regex where
  "email_re = [Rep non_space 1 None, one (\<lambda>c. c = CHR ''@''), Rep non_space 1 None,
               one (\<lambda>c. c = CHR ''.''), Rep non_space 1 None]"

definition phone_re :: regex where
  "phone_re = [Rep (\<lambda>c. c = CHR ''+'') 0 (Some 1), one is_digit,
               Rep (\<lambda>c. is_digit c \<or> is_space c \<or> c = CHR ''-'') 8 None, one is_digit]"

section \<open>Floating point\<close>

text \<open>
  A Python \<^verbatim>\<open>float\<close> is an IEEE 754 binary64 number; the finite ones are rationals.
  \<open>fl x\<close> is the binary64 number nearest to \<open>x\<close> (ties to the even significand): the
  value of \<open>x\<close> with its significand rounded to 53 bits. The exponent is not bounded
  here: an overflow or a subnormal result needs a text of more than \<open>10 ^ 300\<close>
  characters. Each arithmetic operation of Python returns the rounded exact result.
\<close>

fun bit_length :: "nat \<Rightarrow> nat" where
  "bit_length n = (if n = 0 then 0 else Suc (bit_length (n div 2)))"

declare bit_length.simps [simp del]

text \<open>Rounding to the nearest integer, a tie going to the even one.\<close>

definition round_half_even :: "rat \<Rightarrow> int" where
  "round_half_even x =
     (let f = \<lfloor>x\<rfloor>; d = x - of_int f
      in if d < 1 / 2 then f else if 1 / 2 < d then f + 1 else if even f then f else f + 1)"

text \<open>The exponent \<open>b\<close> with \<open>2 powi b \<le> \<bar>x\<bar> < 2 powi (b + 1)\<close>, for \<open>x\<close>
  other than 0, from the bit lengths of numerator and denominator.\<close>

definition binade :: "rat \<Rightarrow> int" where
  "binade x =
     (let (p, q) = quotient_of \<bar>x\<bar>;
          k = int (bit_length (nat p)) - int (bit_length (nat q))
      in if 2 powi k \<le> \<bar>x\<bar> then k else k - 1)"

definition fl :: "rat \<Rightarrow> rat" where
  "fl x = (if x = 0 then 0
           else let e = binade x - 52
                in of_int (round_half_even (x / 2 powi e)) * 2 powi e)"

text \<open>The same rounding on a quotient of integers, with integer arithmetic only; it is
  used to evaluate \<open>fl\<close> on numerals (lemma \<open>fl_ratio\<close> below).\<close>

definition ratio_binade :: "int \<Rightarrow> int \<Rightarrow> int" where
  "ratio_binade p q =
     (let k = int (bit_length (nat \<bar>p\<bar>)) - int (bit_length (nat q))
      in if (if 0 \<le> k then 2 ^ nat k * q \<le> \<bar>p\<bar> else q \<le> \<bar>p\<bar> * 2 ^ nat (- k))
         then k else k - 1)"

definition div_half_even :: "int \<Rightarrow> int \<Rightarrow> int" where
  "div_half_even n d =
     (let r = n div d; m = n mod d
      in if 2 * m < d then r else if d < 2 * m then r + 1 else if even r then r else r + 1)"

definition fl_ratio :: "int \<Rightarrow> int \<Rightarrow> rat" where
  "fl_ratio p q =
     (if p = 0 then 0
      else let e = ratio_binade p q - 52;
               m = (if 0 \<le> e then div_half_even p (q * 2 ^ nat e)
                    else div_half_even (p * 2 ^ nat (- e)) q)
           in of_int m * 2 powi e)"

definition fsub :: "rat \<Rightarrow> rat \<Rightarrow> rat" where
  "fsub a b = fl (a - b)"

definition fmul :: "rat \<Rightarrow> rat \<Rightarrow> rat" where
  "fmul a b = fl (a * b)"

definition fdiv :: "rat \<Rightarrow> rat \<Rightarrow> rat" where
  "fdiv a b = fl (a / b)"

text \<open>\<^verbatim>\<open>round(x, 1)\<close>: the exact value of \<open>x\<close> rounded to one decimal (ties to
  even), and the binary64 number nearest to that decimal.\<close>

definition round1 :: "rat \<Rightarrow> rat" where
  "round1 x = fl (of_int (round_half_even (x * 10)) / 10)"

text \<open>\<^verbatim>\<open>round(x)\<close> and \<^verbatim>\<open>int(x)\<close> of a float: to the nearest integer (ties to
  even), and towards zero.\<close>

definition py_round :: "rat \<Rightarrow> int" where
  "py_round x = round_half_even x"

definition py_int :: "rat \<Rightarrow> int" where
  "py_int x = (if 0 \<le> x then \<lfloor>x\<rfloor> else \<lceil>x\<rceil>)"

text \<open>\<^verbatim>\<open>n or 1\<close> for an integer \<open>n\<close>.\<close>

definition or_1 :: "nat \<Rightarrow> nat" where
  "or_1 n = (if n = 0 then 1 else n)"

section \<open>The fallback readability scorer\<close>

definition flesch_reading_ease :: "string \<Rightarrow> rat" where
  "flesch_reading_ease text =
     (let sentences = or_1 (length (re_findall sentence_end_re text));
          words = or_1 (length (re_findall word_re text));
          syllables = or_1 (sum_list (map (\<lambda>w. length (re_findall vowel_re w)) (split text)));
          score = fsub (fsub (fl (206835 / 1000))
                             (fmul (fl (1015 / 1000)) (fdiv (of_nat words) (of_nat sentences))))
                       (fmul (fl (846 / 10)) (fdiv (of_nat syllables) (of_nat words)))
      in round1 score)"

section \<open>The analyser\<close>

text \<open>
  A suggestion stands for the message the program appends: \<open>Missing_section s\<close> for
  the message built from the section name \<open>s\<close>, the other constructors for the seven
  fixed messages. Distinct constructors are distinct message texts.
\<close>

datatype suggestion =
    Missing_section string
  | Too_short
  | Too_long
  | No_action_verbs
  | No_tech_keywords
  | No_email
  | No_phone
  | Low_readability

definition required_sections :: "string list" where
  "required_sections = [''education'', ''experience'', ''projects'', ''skills'']"

definition action_verbs :: "string list" where
  "action_verbs = [''developed'', ''led'', ''created'', ''designed'', ''managed'',
                   ''implemented'', ''analyzed'', ''organized'']"

definition tech_keywords :: "string list" where
  "tech_keywords = [''python'', ''java'', ''sql'', ''flask'', ''spring'', ''react'', ''docker'',
                    ''aws'', ''html'', ''css'', ''javascript'']"

text \<open>
  The name \<^verbatim>\<open>flesch_reading_ease\<close> is bound when the module is loaded, to the
  function of the \<^verbatim>\<open>textstat\<close> library or to the fallback above: the scorer in use
  is the first argument, \<open>fre\<close>. The result is the tuple the program returns:
  suggestions, word count, readability, score.
\<close>

definition analyze_resume ::
  "(string \<Rightarrow> rat) \<Rightarrow> string \<Rightarrow> suggestion list \<times> nat \<times> rat \<times> int" where
  "analyze_resume fre text =
     (let suggestions = [];
          lower_text = lower text;
          suggestions = foldl (\<lambda>sugg section.
                                 if \<not> str_in section lower_text
                                 then sugg @ [Missing_section section] else sugg)
                              suggestions required_sections;
          word_count = length (re_findall word_re text);
          suggestions = (if word_count < 300 then suggestions @ [Too_short]
                         else if 900 < word_count then suggestions @ [Too_long]
                         else suggestions);
          suggestions = (if \<not> list_ex (\<lambda>v. str_in v lower_text) action_verbs
                         then suggestions @ [No_action_verbs] else suggestions);
          suggestions = (if \<not> list_ex (\<lambda>k. str_in k lower_text) tech_keywords
                         then suggestions @ [No_tech_keywords] else suggestions);
          suggestions = (if re_search email_re text = None
                         then suggestions @ [No_email] else suggestions);
          suggestions = (if re_search phone_re text = None
                         then suggestions @ [No_phone] else suggestions);
          readability_score = fre text;
          suggestions = (if readability_score < 50
                         then suggestions @ [Low_readability] else suggestions);
          total_checks = 7;
          passed = total_checks - int (length suggestions);
          score = max 0 (py_int (fmul (fdiv (of_int passed) (of_int total_checks)) 100))
      in (suggestions, word_count, readability_score, score))"

text \<open>The components of the result.\<close>

definition suggestions_of :: "suggestion list \<times> nat \<times> rat \<times> int \<Rightarrow> suggestion list" where
  "suggestions_of r = fst r"

definition word_count_of :: "suggestion list \<times> nat \<times> rat \<times> int \<Rightarrow> nat" where
  "word_count_of r = fst (snd r)"

definition readability_of :: "suggestion list \<times> nat \<times> rat \<times> int \<Rightarrow> rat" where
  "readability_of r = fst (snd (snd r))"

definition score_of :: "suggestion list \<times> nat \<times> rat \<times> int \<Rightarrow> int" where
  "score_of r = snd (snd (snd r))"

text \<open>A text of 316 words that passes every check; it shows that the conditions of the
  checks can hold together.\<close>

definition example_resume :: string where
  "example_resume =
     ''Education, Experience, Projects and Skills. Developed Python tools. jane.doe@example.com +1 555-123-4567 ''
     @ concat (replicate 300 ''x. '')"

section \<open>The text extractor\<close>

text \<open>
  An uploaded file has a name and a content. The two extraction libraries are arguments:
  \<open>pdf_open\<close> gives the pages of a PDF file or fails, \<open>page_text\<close> gives the text of
  a page, \<open>None\<close> for a page without text, or fails, and \<open>docx_process\<close> gives the
  text of a DOCX file or fails. A failure is the exception the library raises. The result
  of each function comes with the list of the libraries it called, in order.
\<close>

record uploaded_file =
  name :: string
  content :: "nat list"

datatype error = Library_error string

datatype backend = Pdfplumber | Docx2txt

fun pages_text :: "('page \<Rightarrow> error + string option) \<Rightarrow> string \<Rightarrow> 'page list \<Rightarrow> error + string" where
  "pages_text page_text text [] = Inr text"
| "pages_text page_text text (page # pages) =
     (case page_text page of
        Inl e \<Rightarrow> Inl e
      | Inr t \<Rightarrow> pages_text page_text
                 (text @ (case t of None \<Rightarrow> [] | Some s \<Rightarrow> s)) pages)"

definition extract_text_from_pdf ::
  "(uploaded_file \<Rightarrow> error + 'page list) \<Rightarrow> ('page \<Rightarrow> error + string option) \<Rightarrow>
   uploaded_file \<Rightarrow> backend list \<times> (error + string)" where
  "extract_text_from_pdf pdf_open page_text uploaded =
     ([Pdfplumber],
      (case pdf_open uploaded of
         Inl e \<Rightarrow> Inl e
       | Inr pages \<Rightarrow> pages_text page_text [] pages))"

definition extract_text_from_docx ::
  "(uploaded_file \<Rightarrow> error + string) \<Rightarrow> uploaded_file \<Rightarrow> backend list \<times> (error + string)" where
  "extract_text_from_docx docx_process uploaded = ([Docx2txt], docx_process uploaded)"

definition extract_text ::
  "(uploaded_file \<Rightarrow> error + 'page list) \<Rightarrow> ('page \<Rightarrow> error + string option) \<Rightarrow>
   (uploaded_file \<Rightarrow> error + string) \<Rightarrow> uploaded_file \<Rightarrow> backend list \<times> (error + string)" where
  "extract_text pdf_open page_text docx_process uploaded =
     (if endswith (name uploaded) ''.pdf''
      then extract_text_from_pdf pdf_open page_text uploaded
      else if endswith (name uploaded) ''.docx''
      then extract_text_from_docx docx_process uploaded
      else ([], Inr []))"

section \<open>Properties of the rounding\<close>

lemma bit_length_bounds: "0 < n \<Longrightarrow> 2 ^ (bit_length n - 1) \<le> n \<and> n < 2 ^ bit_length n"
proof (induction n rule: bit_length.induct)
  case (1 n)
  show ?case
  proof (cases "n div 2 = 0")
    case True
    with "1.prems" have "n = 1" by presburger
    then show ?thesis by (simp add: bit_length.simps)
  next
    case False
    then have pos: "0 < n div 2" by simp
    from "1.IH" "1.prems" pos
    have ih: "2 ^ (bit_length (n div 2) - 1) \<le> n div 2" "n div 2 < 2 ^ bit_length (n div 2)"
      by auto
    have bl: "bit_length n = Suc (bit_length (n div 2))"
      using "1.prems" by (subst bit_length.simps) simp
    have "0 < bit_length (n div 2)"
      using pos by (subst bit_length.simps) simp
    then obtain j where j: "bit_length (n div 2) = Suc j" by (cases "bit_length (n div 2)") auto
    from ih j have "2 * 2 ^ j \<le> 2 * (n div 2)" by simp
    also have "\<dots> \<le> n" by simp
    finally have lo: "2 ^ (bit_length n - 1) \<le> n" by (simp add: bl j)
    from ih(2) have "n div 2 + 1 \<le> 2 ^ bit_length (n div 2)" by simp
    then have "2 * (n div 2 + 1) \<le> 2 * 2 ^ bit_length (n div 2)" by simp
    moreover have "n < 2 * (n div 2 + 1)" by presburger
    ultimately have hi: "n < 2 ^ bit_length n" by (simp add: bl)
    from lo hi show ?thesis by simp
  qed
qed

lemma bit_length_pos: "0 < n \<Longrightarrow> 0 < bit_length n"
  by (subst bit_length.simps) simp

lemma ratio_bracket:
  fixes p q :: int
  assumes p: "0 < p" and q: "0 < q"
  defines "k \<equiv> int (bit_length (nat p)) - int (bit_length (nat q))"
  shows "2 powi (k - 1) < (of_int p / of_int q :: rat)"
    and "(of_int p / of_int q :: rat) < 2 powi (k + 1)"
proof -
  define a where "a = bit_length (nat p)"
  define b where "b = bit_length (nat q)"
  have a: "0 < a" and b: "0 < b"
    using p q by (simp_all add: a_def b_def bit_length_pos)
  have pa: "2 ^ (a - 1) \<le> nat p" "nat p < 2 ^ a"
    using bit_length_bounds [of "nat p"] p by (simp_all add: a_def)
  have qb: "2 ^ (b - 1) \<le> nat q" "nat q < 2 ^ b"
    using bit_length_bounds [of "nat q"] q by (simp_all add: b_def)
  have p_lo: "(2::rat) ^ (a - 1) \<le> of_int p"
  proof -
    have "(of_nat (2 ^ (a - 1)) :: rat) \<le> of_nat (nat p)" using pa(1) by (simp only: of_nat_le_iff)
    then show ?thesis using p by simp
  qed
  have p_hi: "(of_int p :: rat) < 2 ^ a"
  proof -
    have "(of_nat (nat p) :: rat) < of_nat (2 ^ a)" using pa(2) by (simp only: of_nat_less_iff)
    then show ?thesis using p by simp
  qed
  have q_lo: "(2::rat) ^ (b - 1) \<le> of_int q"
  proof -
    have "(of_nat (2 ^ (b - 1)) :: rat) \<le> of_nat (nat q)" using qb(1) by (simp only: of_nat_le_iff)
    then show ?thesis using q by simp
  qed
  have q_hi: "(of_int q :: rat) < 2 ^ b"
  proof -
    have "(of_nat (nat q) :: rat) < of_nat (2 ^ b)" using qb(2) by (simp only: of_nat_less_iff)
    then show ?thesis using q by simp
  qed
  have qpos: "(0::rat) < of_int q" using q by simp
  have ppos: "(0::rat) < of_int p" using p by simp
  have k1: "(2::rat) powi (k - 1) = 2 ^ (a - 1) / 2 ^ b"
  proof -
    have "k - 1 = int (a - 1) - int b" using a by (simp add: k_def a_def b_def)
    then show ?thesis by (simp add: power_int_diff)
  qed
  have k2: "(2::rat) powi (k + 1) = 2 ^ a / 2 ^ (b - 1)"
  proof -
    have "k + 1 = int a - int (b - 1)" using b by (simp add: k_def a_def b_def)
    then show ?thesis by (simp add: power_int_diff)
  qed
  have "(2::rat) ^ (a - 1) / 2 ^ b < of_int p / of_int q"
  proof -
    have "(2::rat) ^ (a - 1) / 2 ^ b \<le> of_int p / 2 ^ b"
      using p_lo by (simp add: divide_right_mono)
    also have "\<dots> < of_int p / of_int q"
      using q_hi qpos ppos by (simp add: divide_strict_left_mono)
    finally show ?thesis .
  qed
  then show "2 powi (k - 1) < (of_int p / of_int q :: rat)" by (simp add: k1)
  have "(of_int p / of_int q :: rat) < 2 ^ a / 2 ^ (b - 1)"
  proof -
    have "(of_int p / of_int q :: rat) < 2 ^ a / of_int q"
      using p_hi qpos by (simp add: divide_strict_right_mono)
    also have "\<dots> \<le> 2 ^ a / 2 ^ (b - 1)"
    proof (rule divide_left_mono [OF q_lo])
      show "(0::rat) \<le> 2 ^ a" by simp
      show "(0::rat) < of_int q * 2 ^ (b - 1)" using qpos by simp
    qed
    finally show ?thesis .
  qed
  then show "(of_int p / of_int q :: rat) < 2 powi (k + 1)" by (simp add: k2)
qed

lemma binade_bounds:
  assumes "x \<noteq> 0"
  shows "2 powi binade x \<le> \<bar>x\<bar>" and "\<bar>x\<bar> < 2 powi (binade x + 1)"
proof -
  obtain p q where pq: "quotient_of \<bar>x\<bar> = (p, q)" by (cases "quotient_of \<bar>x\<bar>")
  have q: "0 < q" using pq by (rule quotient_of_denom_pos)
  have x: "\<bar>x\<bar> = of_int p / of_int q" using pq by (rule quotient_of_div)
  have "0 < \<bar>x\<bar>" using assms by simp
  then have "(0::rat) < of_int p / of_int q" by (simp only: x)
  then have p: "0 < p" using q by (simp add: zero_less_divide_iff)
  define k where "k = int (bit_length (nat p)) - int (bit_length (nat q))"
  have lo: "2 powi (k - 1) < \<bar>x\<bar>" and hi: "\<bar>x\<bar> < 2 powi (k + 1)"
    using ratio_bracket [OF p q] by (simp_all only: x k_def)
  have b: "binade x = (if 2 powi k \<le> \<bar>x\<bar> then k else k - 1)"
    by (simp add: binade_def pq k_def Let_def)
  show "2 powi binade x \<le> \<bar>x\<bar>"
    using lo by (simp add: b)
  show "\<bar>x\<bar> < 2 powi (binade x + 1)"
    using hi by (simp add: b)
qed

lemma binade_unique:
  assumes "x \<noteq> 0" and lo: "2 powi b \<le> \<bar>x\<bar>" and hi: "\<bar>x\<bar> < 2 powi (b + 1)"
  shows "binade x = b"
proof -
  have "(2::rat) powi binade x < 2 powi (b + 1)"
    using binade_bounds(1) [OF assms(1)] hi by (rule le_less_trans)
  then have 1: "binade x < b + 1"
    by (metis not_less power_int_increasing one_le_numeral)
  have "(2::rat) powi b < 2 powi (binade x + 1)"
    using lo binade_bounds(2) [OF assms(1)] by (rule le_less_trans)
  then have 2: "b < binade x + 1"
    by (metis not_less power_int_increasing one_le_numeral)
  from 1 2 show ?thesis by simp
qed

lemma round_half_even_ratio:
  assumes "0 < d"
  shows "round_half_even (of_int n / of_int d) = div_half_even n d"
proof -
  have f: "\<lfloor>of_int n / of_int d :: rat\<rfloor> = n div d" by (rule floor_divide_of_int_eq)
  have "n div d * d + n mod d = n" by (rule div_mult_mod_eq)
  then have "(of_int n :: rat) = of_int (n div d * d + n mod d)" by (rule arg_cong [symmetric])
  also have "\<dots> = of_int (n div d) * of_int d + of_int (n mod d)"
    by (simp only: of_int_add of_int_mult)
  finally have "(of_int n / of_int d :: rat) = of_int (n div d) + of_int (n mod d) / of_int d"
    using assms by (simp add: field_simps)
  then have r: "(of_int n / of_int d :: rat) - of_int (n div d) = of_int (n mod d) / of_int d"
    by simp
  have dpos: "(0::rat) < of_int d" using assms by simp
  have lt: "(of_int (n mod d) / of_int d < (1 / 2 :: rat)) = (2 * (n mod d) < d)"
  proof -
    have "(of_int (n mod d) / of_int d < (1 / 2 :: rat)) = ((of_int (2 * (n mod d)) :: rat) < of_int d)"
      using dpos by (simp add: field_simps)
    then show ?thesis by (simp only: of_int_less_iff)
  qed
  have gt: "((1 / 2 :: rat) < of_int (n mod d) / of_int d) = (d < 2 * (n mod d))"
  proof -
    have "((1 / 2 :: rat) < of_int (n mod d) / of_int d) = ((of_int d :: rat) < of_int (2 * (n mod d)))"
      using dpos by (simp add: field_simps)
    then show ?thesis by (simp only: of_int_less_iff)
  qed
  show ?thesis
    by (simp only: round_half_even_def div_half_even_def Let_def f r lt gt)
qed

lemma powi_le_ratio:
  fixes a q k :: int
  assumes q: "0 < q"
  shows "((2::rat) powi k \<le> of_int a / of_int q) =
         (if 0 \<le> k then 2 ^ nat k * q \<le> a else q \<le> a * 2 ^ nat (- k))"
proof (cases "0 \<le> k")
  case True
  have qpos: "(0::rat) < of_int q" using q by simp
  have "(2::rat) powi k = of_int (2 ^ nat k)" using True by (simp add: power_int_def)
  then have "((2::rat) powi k \<le> of_int a / of_int q) = ((of_int (2 ^ nat k * q) :: rat) \<le> of_int a)"
    using qpos by (simp add: pos_le_divide_eq)
  also have "\<dots> = (2 ^ nat k * q \<le> a)" by (simp only: of_int_le_iff)
  finally show ?thesis using True by simp
next
  case False
  have qpos: "(0::rat) < of_int q" using q by simp
  define n where "n = nat (- k)"
  have h: "(2::rat) powi k = 1 / 2 ^ n"
    using False by (simp add: power_int_def n_def power_one_over [symmetric] inverse_eq_divide)
  have "((1::rat) / 2 ^ n \<le> of_int a / of_int q) = ((of_int q :: rat) \<le> of_int a * 2 ^ n)"
    using qpos by (simp add: field_simps)
  then have "((2::rat) powi k \<le> of_int a / of_int q) = ((of_int q :: rat) \<le> of_int (a * 2 ^ nat (- k)))"
    by (simp add: h n_def)
  also have "\<dots> = (q \<le> a * 2 ^ nat (- k))" by (simp only: of_int_le_iff)
  finally show ?thesis using False by simp
qed

lemma binade_ratio:
  assumes q: "0 < q" and p: "p \<noteq> 0"
  shows "binade (of_int p / of_int q) = ratio_binade p q"
proof -
  define x :: rat where "x = of_int p / of_int q"
  have ax: "\<bar>x\<bar> = of_int \<bar>p\<bar> / of_int q" using q by (simp add: x_def)
  have x0: "x \<noteq> 0" using p q by (simp add: x_def)
  have ap: "0 < \<bar>p\<bar>" using p by simp
  define k where "k = int (bit_length (nat \<bar>p\<bar>)) - int (bit_length (nat q))"
  have lo: "2 powi (k - 1) < \<bar>x\<bar>" and hi: "\<bar>x\<bar> < 2 powi (k + 1)"
    using ratio_bracket [OF ap q] by (simp_all only: ax k_def)
  have c: "(if 0 \<le> k then 2 ^ nat k * q \<le> \<bar>p\<bar> else q \<le> \<bar>p\<bar> * 2 ^ nat (- k)) = (2 powi k \<le> \<bar>x\<bar>)"
    by (simp only: ax powi_le_ratio [OF q])
  have rb: "ratio_binade p q = (if 2 powi k \<le> \<bar>x\<bar> then k else k - 1)"
    by (simp only: ratio_binade_def Let_def k_def [symmetric] c)
  have "binade x = (if 2 powi k \<le> \<bar>x\<bar> then k else k - 1)"
  proof (rule binade_unique [OF x0])
    show "2 powi (if 2 powi k \<le> \<bar>x\<bar> then k else k - 1) \<le> \<bar>x\<bar>"
      using lo by simp
    show "\<bar>x\<bar> < 2 powi ((if 2 powi k \<le> \<bar>x\<bar> then k else k - 1) + 1)"
      using hi by simp
  qed
  then show ?thesis by (simp only: rb x_def)
qed

lemma scaled_ratio:
  assumes q: "0 < q"
  shows "(of_int p / of_int q :: rat) / 2 powi e =
         (if 0 \<le> e then of_int p / of_int (q * 2 ^ nat e)
          else of_int (p * 2 ^ nat (- e)) / of_int q)"
  by (simp add: power_int_def field_simps)

lemma fl_ratio:
  assumes q: "0 < q"
  shows "fl (of_int p / of_int q) = fl_ratio p q"
proof (cases "p = 0")
  case True
  then show ?thesis by (simp add: fl_def fl_ratio_def)
next
  case False
  have x0: "(of_int p / of_int q :: rat) \<noteq> 0" using False q by simp
  define e where "e = ratio_binade p q - 52"
  have b: "binade (of_int p / of_int q) - 52 = e"
    by (simp only: binade_ratio [OF q False] e_def)
  have r: "round_half_even ((of_int p / of_int q) / 2 powi e) =
           (if 0 \<le> e then div_half_even p (q * 2 ^ nat e)
            else div_half_even (p * 2 ^ nat (- e)) q)"
  proof (cases "0 \<le> e")
    case True
    have "0 < q * 2 ^ nat e" using q by simp
    then show ?thesis
      using True by (simp only: scaled_ratio [OF q] if_True round_half_even_ratio)
  next
    case False
    then show ?thesis
      using q by (simp only: scaled_ratio [OF q] if_False round_half_even_ratio)
  qed
  have "fl (of_int p / of_int q) =
        of_int (round_half_even ((of_int p / of_int q) / 2 powi e)) * 2 powi e"
    using x0 by (simp only: fl_def if_False Let_def b)
  also have "\<dots> = fl_ratio p q"
    using False by (simp only: fl_ratio_def if_False Let_def e_def [symmetric] r)
  finally show ?thesis .
qed

lemma fl_numeral_simps:
  "fl (numeral a / numeral b) = fl_ratio (numeral a) (numeral b)"
  "fl (- (numeral a / numeral b)) = fl_ratio (- numeral a) (numeral b)"
  "fl (numeral a) = fl_ratio (numeral a) 1"
  "fl (- numeral a) = fl_ratio (- numeral a) 1"
  "fl (1 / numeral b) = fl_ratio 1 (numeral b)"
  "fl (- (1 / numeral b)) = fl_ratio (- 1) (numeral b)"
  "fl 1 = fl_ratio 1 1"
  "fl (- 1) = fl_ratio (- 1) 1"
  "fl 0 = 0"
  using fl_ratio [of "numeral b" "numeral a"] fl_ratio [of "numeral b" "- numeral a"]
    fl_ratio [of 1 "numeral a"] fl_ratio [of 1 "- numeral a"]
    fl_ratio [of "numeral b" 1] fl_ratio [of "numeral b" "- 1"]
    fl_ratio [of 1 1] fl_ratio [of 1 "- 1"]
  by (simp_all add: fl_def)

lemma bit_length_numeral_simps:
  "bit_length 0 = 0"
  "bit_length (Suc 0) = Suc 0"
  "bit_length (numeral k) = Suc (bit_length (numeral k div 2))"
  by (subst bit_length.simps, simp add: bit_length.simps)+


lemma floor_numeral_ratio:
  "\<lfloor>numeral a / numeral b :: rat\<rfloor> = numeral a div numeral b"
  "\<lfloor>- (numeral a / numeral b) :: rat\<rfloor> = - numeral a div numeral b"
  "\<lceil>numeral a / numeral b :: rat\<rceil> = - (- numeral a div numeral b)"
  "\<lceil>- (numeral a / numeral b) :: rat\<rceil> = - (numeral a div numeral b)"
  using floor_divide_of_int_eq [of "numeral a" "numeral b", where ?'a = rat]
    floor_divide_of_int_eq [of "- numeral a" "numeral b", where ?'a = rat]
  by (simp_all add: ceiling_def)

lemma round_half_even_numeral:
  "round_half_even (numeral a / numeral b) = div_half_even (numeral a) (numeral b)"
  "round_half_even (- (numeral a / numeral b)) = div_half_even (- numeral a) (numeral b)"
  "round_half_even (numeral a) = numeral a"
  "round_half_even (- numeral a) = - numeral a"
  "round_half_even 0 = 0"
  "round_half_even 1 = 1"
  using round_half_even_ratio [of "numeral b" "numeral a"]
    round_half_even_ratio [of "numeral b" "- numeral a"]
  by (simp_all add: round_half_even_def)

lemmas float_eval = fl_numeral_simps fl_ratio_def ratio_binade_def div_half_even_def
  bit_length_numeral_simps Let_def fsub_def fmul_def fdiv_def round1_def
  round_half_even_numeral floor_numeral_ratio py_int_def py_round_def

lemma score_values:
  "max 0 (py_int (fmul (fdiv 7 7) 100)) = 100"
  "max 0 (py_int (fmul (fdiv 6 7) 100)) = 85"
  "max 0 (py_int (fmul (fdiv 5 7) 100)) = 71"
  "max 0 (py_int (fmul (fdiv 4 7) 100)) = 57"
  "max 0 (py_int (fmul (fdiv 3 7) 100)) = 42"
  "max 0 (py_int (fmul (fdiv 2 7) 100)) = 28"
  "max 0 (py_int (fmul (fdiv 1 7) 100)) = 14"
  "max 0 (py_int (fmul (fdiv 0 7) 100)) = 0"
  "max 0 (py_int (fmul (fdiv (- 1) 7) 100)) = 0"
  "max 0 (py_int (fmul (fdiv (- 2) 7) 100)) = 0"
  "max 0 (py_int (fmul (fdiv (- 3) 7) 100)) = 0"
  by (simp_all add: float_eval)


section \<open>Properties of the regular expressions\<close>

lemma first_success_Some:
  "first_success f xs = Some y \<Longrightarrow> \<exists>x \<in> set xs. f x = Some y"
  by (induction xs) (auto split: option.splits)

lemma first_success_None:
  "(first_success f xs = None) = (\<forall>x \<in> set xs. f x = None)"
  by (induction xs) (auto split: option.splits)

lemma set_piece_ends:
  "set (piece_ends (Rep cls lo hi) s) =
     (\<lambda>k. drop k s) ` {k. lo \<le> k \<and> k \<le> length (takeWhile cls s) \<and> allows hi k}"
  by (cases hi) (auto simp: piece_ends.simps Let_def)

lemma takeWhile_length_ge:
  "k \<le> length s \<Longrightarrow> list_all P (take k s) \<Longrightarrow> k \<le> length (takeWhile P s)"
proof (induction s arbitrary: k)
  case Nil
  then show ?case by simp
next
  case (Cons c s)
  then show ?case by (cases k) auto
qed

lemma take_takeWhile_all:
  "k \<le> length (takeWhile P s) \<Longrightarrow> list_all P (take k s)"
proof (induction s arbitrary: k)
  case Nil
  then show ?case by simp
next
  case (Cons c s)
  then show ?case by (cases k) (auto split: if_splits)
qed

lemma match_here_sound:
  "match_here r s = Some rest \<Longrightarrow> \<exists>u. s = u @ rest \<and> matches r u"
proof (induction r arbitrary: s)
  case Nil
  then show ?case by simp
next
  case (Cons p ps)
  obtain cls lo hi where p: "p = Rep cls lo hi" by (cases p)
  from Cons.prems obtain x where x: "x \<in> set (piece_ends p s)" "match_here ps x = Some rest"
    by (auto dest: first_success_Some)
  from x(1) obtain k where k: "x = drop k s" "lo \<le> k" "k \<le> length (takeWhile cls s)" "allows hi k"
    by (auto simp: p set_piece_ends)
  from Cons.IH [OF x(2)] obtain u' where u': "x = u' @ rest" "matches ps u'" by blast
  have ks: "k \<le> length s" using k(3) length_takeWhile_le [of cls s] by linarith
  have s: "s = (take k s @ u') @ rest"
    using u'(1) k(1) by (metis append_assoc append_take_drop_id)
  have lk: "length (take k s) = k" using ks by simp
  have "matches (Rep cls lo hi # ps) (take k s @ u')"
    using k(2,4) u'(2) take_takeWhile_all [OF k(3)] lk
    by (auto intro!: bexI [of _ k])
  with s show ?case unfolding p by blast
qed

lemma match_here_complete:
  "matches r u \<Longrightarrow> match_here r (u @ rest) \<noteq> None"
proof (induction r arbitrary: u)
  case Nil
  then show ?case by simp
next
  case (Cons p ps)
  obtain cls lo hi where p: "p = Rep cls lo hi" by (cases p)
  from Cons.prems obtain k where k: "lo \<le> k" "k \<le> length u" "allows hi k"
    "list_all cls (take k u)" "matches ps (drop k u)"
    by (auto simp: p)
  have "list_all cls (take k (u @ rest))" using k(2,4) by simp
  then have "k \<le> length (takeWhile cls (u @ rest))"
    using k(2) by (intro takeWhile_length_ge) simp_all
  then have "drop k (u @ rest) \<in> set (piece_ends p (u @ rest))"
    using k(1,3) by (auto simp: p set_piece_ends)
  moreover have "match_here ps (drop k (u @ rest)) \<noteq> None"
    using Cons.IH [OF k(5)] k(2) by simp
  ultimately show ?case
    by (auto simp: first_success_None)
qed

lemma re_search_iff:
  "(re_search r s \<noteq> None) = (\<exists>pre u post. s = pre @ u @ post \<and> matches r u)"
proof (induction s)
  case Nil
  show ?case
  proof
    assume "re_search r [] \<noteq> None"
    then obtain rest where "match_here r [] = Some rest"
      by (auto simp: re_search.simps split: option.splits)
    from match_here_sound [OF this] show "\<exists>pre u post. [] = pre @ u @ post \<and> matches r u"
      by auto
  next
    assume "\<exists>pre u post. [] = pre @ u @ post \<and> matches r u"
    then have "matches r []" by auto
    from match_here_complete [OF this, of "[]"] show "re_search r [] \<noteq> None"
      by (auto simp: re_search.simps split: option.splits)
  qed
next
  case (Cons c cs)
  show ?case
  proof
    assume a: "re_search r (c # cs) \<noteq> None"
    show "\<exists>pre u post. c # cs = pre @ u @ post \<and> matches r u"
    proof (cases "match_here r (c # cs)")
      case None
      with a have "re_search r cs \<noteq> None" by (simp add: re_search.simps)
      with Cons.IH obtain pre u post where "cs = pre @ u @ post" "matches r u" by blast
      then have "c # cs = (c # pre) @ u @ post \<and> matches r u" by simp
      then show ?thesis by blast
    next
      case (Some rest)
      from match_here_sound [OF this] obtain u where "c # cs = u @ rest" "matches r u" by blast
      then have "c # cs = [] @ u @ rest \<and> matches r u" by simp
      then show ?thesis by blast
    qed
  next
    assume "\<exists>pre u post. c # cs = pre @ u @ post \<and> matches r u"
    then obtain pre u post where s: "c # cs = pre @ u @ post" and m: "matches r u" by blast
    show "re_search r (c # cs) \<noteq> None"
    proof (cases pre)
      case Nil
      with s have "u @ post = c # cs" by simp
      with match_here_complete [OF m, of post] have "match_here r (c # cs) \<noteq> None"
        by simp
      then show ?thesis
        by (auto simp: re_search.simps split: option.splits)
    next
      case (Cons d pre')
      with s have "cs = pre' @ u @ post" by simp
      with m Cons.IH have "re_search r cs \<noteq> None" by blast
      then show ?thesis
        by (auto simp: re_search.simps split: option.splits)
    qed
  qed
qed

lemma matches_Cons:
  "matches (Rep cls lo hi # ps) u =
     (\<exists>v w. u = v @ w \<and> lo \<le> length v \<and> allows hi (length v) \<and> list_all cls v \<and> matches ps w)"
proof
  assume "matches (Rep cls lo hi # ps) u"
  then obtain k where k: "lo \<le> k" "k \<le> length u" "allows hi k"
    "list_all cls (take k u)" "matches ps (drop k u)"
    by auto
  have "u = take k u @ drop k u" by simp
  moreover have "length (take k u) = k" using k(2) by simp
  ultimately show "\<exists>v w. u = v @ w \<and> lo \<le> length v \<and> allows hi (length v) \<and> list_all cls v \<and> matches ps w"
    using k by metis
next
  assume "\<exists>v w. u = v @ w \<and> lo \<le> length v \<and> allows hi (length v) \<and> list_all cls v \<and> matches ps w"
  then obtain v w where "u = v @ w" "lo \<le> length v" "allows hi (length v)" "list_all cls v"
    "matches ps w" by blast
  then show "matches (Rep cls lo hi # ps) u"
    by (auto intro!: bexI [of _ "length v"])
qed

lemma matches_one:
  "matches (one cls # ps) u = (\<exists>c w. u = c # w \<and> cls c \<and> matches ps w)"
proof -
  have "(\<exists>v w. u = v @ w \<and> 1 \<le> length v \<and> length v \<le> 1 \<and> list_all cls v \<and> matches ps w)
        = (\<exists>c w. u = c # w \<and> cls c \<and> matches ps w)"
  proof
    assume "\<exists>v w. u = v @ w \<and> 1 \<le> length v \<and> length v \<le> 1 \<and> list_all cls v \<and> matches ps w"
    then obtain v w where h: "u = v @ w" "1 \<le> length v" "length v \<le> 1" "list_all cls v"
      "matches ps w" by blast
    from h(2,3) obtain c where "v = [c]" by (cases v) auto
    with h show "\<exists>c w. u = c # w \<and> cls c \<and> matches ps w" by auto
  next
    assume "\<exists>c w. u = c # w \<and> cls c \<and> matches ps w"
    then obtain c w where "u = c # w" "cls c" "matches ps w" by blast
    then have "u = [c] @ w \<and> 1 \<le> length [c] \<and> length [c] \<le> 1 \<and> list_all cls [c] \<and> matches ps w"
      by simp
    then show "\<exists>v w. u = v @ w \<and> 1 \<le> length v \<and> length v \<le> 1 \<and> list_all cls v \<and> matches ps w"
      by blast
  qed
  then show ?thesis
    by (simp only: one_def matches_Cons allows.simps)
qed

lemma matches_plus_last:
  "matches [Rep cls 1 None] u = (u \<noteq> [] \<and> list_all cls u)"
  by (auto simp del: matches.simps(2) simp add: matches_Cons Suc_le_eq)

lemma nonempty_length: "(1 \<le> length v) = (v \<noteq> [])"
  by (cases v) simp_all

lemma matches_plus:
  "matches (Rep cls 1 None # ps) u =
     (\<exists>v w. u = v @ w \<and> v \<noteq> [] \<and> list_all cls v \<and> matches ps w)"
  by (simp only: matches_Cons allows.simps nonempty_length simp_thms)

lemma matches_email:
  "matches email_re u =
     (\<exists>a b c. u = a @ CHR ''@'' # b @ CHR ''.'' # c
        \<and> a \<noteq> [] \<and> list_all non_space a \<and> b \<noteq> [] \<and> list_all non_space b
        \<and> c \<noteq> [] \<and> list_all non_space c)"
proof
  assume "matches email_re u"
  then obtain a w1 where 1: "u = a @ w1" "a \<noteq> []" "list_all non_space a"
    and m1: "matches [one (\<lambda>c. c = CHR ''@''), Rep non_space 1 None,
                      one (\<lambda>c. c = CHR ''.''), Rep non_space 1 None] w1"
    unfolding email_re_def matches_plus by blast
  from m1 obtain w2 where 2: "w1 = CHR ''@'' # w2"
    and m2: "matches [Rep non_space 1 None, one (\<lambda>c. c = CHR ''.''), Rep non_space 1 None] w2"
    unfolding matches_one by blast
  from m2 obtain b w3 where 3: "w2 = b @ w3" "b \<noteq> []" "list_all non_space b"
    and m3: "matches [one (\<lambda>c. c = CHR ''.''), Rep non_space 1 None] w3"
    unfolding matches_plus by blast
  from m3 obtain c where 4: "w3 = CHR ''.'' # c"
    and m4: "matches [Rep non_space 1 None] c"
    unfolding matches_one by blast
  from m4 have 5: "c \<noteq> []" "list_all non_space c"
    unfolding matches_plus_last by simp_all
  have "u = a @ CHR ''@'' # b @ CHR ''.'' # c" by (simp add: 1 2 3 4)
  with 1 3 5 show "\<exists>a b c. u = a @ CHR ''@'' # b @ CHR ''.'' # c
        \<and> a \<noteq> [] \<and> list_all non_space a \<and> b \<noteq> [] \<and> list_all non_space b
        \<and> c \<noteq> [] \<and> list_all non_space c" by blast
next
  assume "\<exists>a b c. u = a @ CHR ''@'' # b @ CHR ''.'' # c
        \<and> a \<noteq> [] \<and> list_all non_space a \<and> b \<noteq> [] \<and> list_all non_space b
        \<and> c \<noteq> [] \<and> list_all non_space c"
  then obtain a b c where u: "u = a @ CHR ''@'' # b @ CHR ''.'' # c"
    and h: "a \<noteq> []" "list_all non_space a" "b \<noteq> []" "list_all non_space b"
      "c \<noteq> []" "list_all non_space c" by blast
  have m4: "matches [Rep non_space 1 None] c"
    unfolding matches_plus_last using h by simp
  have m3: "matches [one (\<lambda>c. c = CHR ''.''), Rep non_space 1 None] (CHR ''.'' # c)"
    unfolding matches_one using m4 by blast
  have m2: "matches [Rep non_space 1 None, one (\<lambda>c. c = CHR ''.''), Rep non_space 1 None]
              (b @ CHR ''.'' # c)"
    unfolding matches_plus using m3 h by blast
  have m1: "matches [one (\<lambda>c. c = CHR ''@''), Rep non_space 1 None,
                     one (\<lambda>c. c = CHR ''.''), Rep non_space 1 None]
              (CHR ''@'' # b @ CHR ''.'' # c)"
    unfolding matches_one using m2 by blast
  show "matches email_re u"
    unfolding email_re_def matches_plus u using m1 h by blast
qed

lemma matches_phone:
  "matches phone_re u =
     (\<exists>sign d1 mid d2. u = sign @ d1 # mid @ [d2]
        \<and> (sign = [] \<or> sign = ''+'') \<and> is_digit d1 \<and> 8 \<le> length mid
        \<and> list_all (\<lambda>c. is_digit c \<or> is_space c \<or> c = CHR ''-'') mid \<and> is_digit d2)"
proof
  have sign: "(length v \<le> 1 \<and> list_all (\<lambda>c. c = CHR ''+'') v) = (v = [] \<or> v = ''+'')" for v
    by (cases v) auto
  assume "matches phone_re u"
  then obtain v w1 where 1: "u = v @ w1" "length v \<le> 1" "list_all (\<lambda>c. c = CHR ''+'') v"
    and m1: "matches [one is_digit,
               Rep (\<lambda>c. is_digit c \<or> is_space c \<or> c = CHR ''-'') 8 None, one is_digit] w1"
    unfolding phone_re_def matches_Cons [of _ 0] allows.simps by blast
  from m1 obtain d1 w2 where 2: "w1 = d1 # w2" "is_digit d1"
    and m2: "matches [Rep (\<lambda>c. is_digit c \<or> is_space c \<or> c = CHR ''-'') 8 None, one is_digit] w2"
    unfolding matches_one by blast
  from m2 obtain mid w3 where 3: "w2 = mid @ w3" "8 \<le> length mid"
      "list_all (\<lambda>c. is_digit c \<or> is_space c \<or> c = CHR ''-'') mid"
    and m3: "matches [one is_digit] w3"
    unfolding matches_Cons [of _ 8] allows.simps by blast
  from m3 obtain d2 where 4: "w3 = [d2]" "is_digit d2"
    unfolding matches_one by auto
  have "u = v @ d1 # mid @ [d2]" by (simp add: 1 2 3 4)
  moreover have "v = [] \<or> v = ''+''" using 1(2,3) sign by blast
  ultimately show "\<exists>sign d1 mid d2. u = sign @ d1 # mid @ [d2]
        \<and> (sign = [] \<or> sign = ''+'') \<and> is_digit d1 \<and> 8 \<le> length mid
        \<and> list_all (\<lambda>c. is_digit c \<or> is_space c \<or> c = CHR ''-'') mid \<and> is_digit d2"
    using 2 3 4 by blast
next
  have sign: "(length v \<le> 1 \<and> list_all (\<lambda>c. c = CHR ''+'') v) = (v = [] \<or> v = ''+'')" for v
    by (cases v) auto
  assume "\<exists>sign d1 mid d2. u = sign @ d1 # mid @ [d2]
        \<and> (sign = [] \<or> sign = ''+'') \<and> is_digit d1 \<and> 8 \<le> length mid
        \<and> list_all (\<lambda>c. is_digit c \<or> is_space c \<or> c = CHR ''-'') mid \<and> is_digit d2"
  then obtain v d1 mid d2 where u: "u = v @ d1 # mid @ [d2]"
    and h: "v = [] \<or> v = ''+''" "is_digit d1" "8 \<le> length mid"
      "list_all (\<lambda>c. is_digit c \<or> is_space c \<or> c = CHR ''-'') mid" "is_digit d2" by blast
  have m3: "matches [one is_digit] [d2]"
    unfolding matches_one using h by simp
  have m2: "matches [Rep (\<lambda>c. is_digit c \<or> is_space c \<or> c = CHR ''-'') 8 None, one is_digit]
              (mid @ [d2])"
    unfolding matches_Cons [of _ 8] allows.simps using m3 h by blast
  have m1: "matches [one is_digit,
               Rep (\<lambda>c. is_digit c \<or> is_space c \<or> c = CHR ''-'') 8 None, one is_digit]
              (d1 # mid @ [d2])"
    unfolding matches_one using m2 h by blast
  have "length v \<le> 1 \<and> list_all (\<lambda>c. c = CHR ''+'') v" using h(1) sign by blast
  then show "matches phone_re u"
    unfolding phone_re_def matches_Cons [of _ 0] allows.simps u using m1 by blast
qed

lemma search_email_iff:
  "(re_search email_re text \<noteq> None) =
     (\<exists>pre a b c post. text = pre @ a @ CHR ''@'' # b @ CHR ''.'' # c @ post
        \<and> a \<noteq> [] \<and> list_all non_space a \<and> b \<noteq> [] \<and> list_all non_space b
        \<and> c \<noteq> [] \<and> list_all non_space c)"
proof
  assume "re_search email_re text \<noteq> None"
  then obtain pre u post where t: "text = pre @ u @ post" and m: "matches email_re u"
    unfolding re_search_iff by blast
  from m obtain a b c where u: "u = a @ CHR ''@'' # b @ CHR ''.'' # c"
    and h: "a \<noteq> []" "list_all non_space a" "b \<noteq> []" "list_all non_space b"
      "c \<noteq> []" "list_all non_space c"
    unfolding matches_email by blast
  have "text = pre @ a @ CHR ''@'' # b @ CHR ''.'' # c @ post" by (simp add: t u)
  with h show "\<exists>pre a b c post. text = pre @ a @ CHR ''@'' # b @ CHR ''.'' # c @ post
        \<and> a \<noteq> [] \<and> list_all non_space a \<and> b \<noteq> [] \<and> list_all non_space b
        \<and> c \<noteq> [] \<and> list_all non_space c" by blast
next
  assume "\<exists>pre a b c post. text = pre @ a @ CHR ''@'' # b @ CHR ''.'' # c @ post
        \<and> a \<noteq> [] \<and> list_all non_space a \<and> b \<noteq> [] \<and> list_all non_space b
        \<and> c \<noteq> [] \<and> list_all non_space c"
  then obtain pre a b c post where t: "text = pre @ a @ CHR ''@'' # b @ CHR ''.'' # c @ post"
    and h: "a \<noteq> []" "list_all non_space a" "b \<noteq> []" "list_all non_space b"
      "c \<noteq> []" "list_all non_space c" by blast
  have m: "matches email_re (a @ CHR ''@'' # b @ CHR ''.'' # c)"
    unfolding matches_email using h by blast
  have "text = pre @ (a @ CHR ''@'' # b @ CHR ''.'' # c) @ post" by (simp add: t)
  with m show "re_search email_re text \<noteq> None"
    unfolding re_search_iff by blast
qed

lemma search_phone_iff:
  "(re_search phone_re text \<noteq> None) =
     (\<exists>pre d1 mid d2 post. text = pre @ d1 # mid @ d2 # post
        \<and> is_digit d1 \<and> 8 \<le> length mid
        \<and> list_all (\<lambda>c. is_digit c \<or> is_space c \<or> c = CHR ''-'') mid \<and> is_digit d2)"
proof
  assume "re_search phone_re text \<noteq> None"
  then obtain pre u post where t: "text = pre @ u @ post" and m: "matches phone_re u"
    unfolding re_search_iff by blast
  from m obtain v d1 mid d2 where u: "u = v @ d1 # mid @ [d2]"
    and h: "is_digit d1" "8 \<le> length mid"
      "list_all (\<lambda>c. is_digit c \<or> is_space c \<or> c = CHR ''-'') mid" "is_digit d2"
    unfolding matches_phone by blast
  have "text = (pre @ v) @ d1 # mid @ d2 # post" by (simp add: t u)
  with h show "\<exists>pre d1 mid d2 post. text = pre @ d1 # mid @ d2 # post
        \<and> is_digit d1 \<and> 8 \<le> length mid
        \<and> list_all (\<lambda>c. is_digit c \<or> is_space c \<or> c = CHR ''-'') mid \<and> is_digit d2" by blast
next
  assume "\<exists>pre d1 mid d2 post. text = pre @ d1 # mid @ d2 # post
        \<and> is_digit d1 \<and> 8 \<le> length mid
        \<and> list_all (\<lambda>c. is_digit c \<or> is_space c \<or> c = CHR ''-'') mid \<and> is_digit d2"
  then obtain pre d1 mid d2 post where t: "text = pre @ d1 # mid @ d2 # post"
    and h: "is_digit d1" "8 \<le> length mid"
      "list_all (\<lambda>c. is_digit c \<or> is_space c \<or> c = CHR ''-'') mid" "is_digit d2" by blast
  have "[] @ d1 # mid @ [d2] = d1 # mid @ [d2]" by simp
  with h have m: "matches phone_re (d1 # mid @ [d2])"
    unfolding matches_phone by blast
  have "text = pre @ (d1 # mid @ [d2]) @ post" by (simp add: t)
  with m show "re_search phone_re text \<noteq> None"
    unfolding re_search_iff by blast
qed

lemma match_here_one:
  "match_here [one cls] s = (case s of [] \<Rightarrow> None | c # cs \<Rightarrow> if cls c then Some cs else None)"
  by (cases s) (simp_all add: one_def piece_ends.simps)

lemma findall_one: "re_findall [one cls] s = map (\<lambda>c. [c]) (filter cls s)"
proof (induction s)
  case Nil
  show ?case by (simp add: re_findall.simps [of _ "[]"] match_here_one del: match_here.simps)
next
  case (Cons c cs)
  then show ?case
    by (simp add: re_findall.simps [of _ "c # cs"] match_here_one del: match_here.simps)
qed

lemma match_here_plus:
  "match_here [Rep cls 1 None] s =
     (case s of [] \<Rightarrow> None | c # cs \<Rightarrow> if cls c then Some (dropWhile cls cs) else None)"
proof (cases s)
  case Nil
  then show ?thesis by (simp add: piece_ends.simps)
next
  case (Cons c cs)
  show ?thesis
  proof (cases "cls c")
    case False
    then show ?thesis by (simp add: Cons piece_ends.simps)
  next
    case True
    define n where "n = length (takeWhile cls cs)"
    have "rev [1 ..< Suc (Suc n)] = Suc n # rev [1 ..< Suc n]" by simp
    moreover have "drop n cs = dropWhile cls cs" by (simp add: n_def dropWhile_eq_drop)
    ultimately show ?thesis
      using True by (simp add: Cons piece_ends.simps n_def [symmetric] del: upt_Suc)
  qed
qed

lemma findall_plus:
  "re_findall [Rep cls 1 None] [] = []"
  "cls c \<Longrightarrow> re_findall [Rep cls 1 None] (c # cs) =
     (c # takeWhile cls cs) # re_findall [Rep cls 1 None] (dropWhile cls cs)"
  "\<not> cls c \<Longrightarrow> re_findall [Rep cls 1 None] (c # cs) = re_findall [Rep cls 1 None] cs"
proof -
  show "re_findall [Rep cls 1 None] [] = []"
    by (subst re_findall.simps) (simp only: match_here_plus list.case option.case)
  show "re_findall [Rep cls 1 None] (c # cs) = re_findall [Rep cls 1 None] cs" if "\<not> cls c"
    using that
    by (subst re_findall.simps) (simp only: match_here_plus list.case option.case if_False)
  show "re_findall [Rep cls 1 None] (c # cs) =
     (c # takeWhile cls cs) # re_findall [Rep cls 1 None] (dropWhile cls cs)" if "cls c"
  proof -
    have l: "length (dropWhile cls cs) < length (c # cs)"
      using length_dropWhile_le [of cls cs] by simp
    have "length cs - length (dropWhile cls cs) = length (takeWhile cls cs)"
      by (metis add_diff_cancel_right' length_append takeWhile_dropWhile_id)
    then have t: "take (length (c # cs) - length (dropWhile cls cs)) (c # cs) = c # takeWhile cls cs"
      using length_dropWhile_le [of cls cs]
      by (simp add: Suc_diff_le takeWhile_eq_take [symmetric])
    show ?thesis
      using that l by (simp only: re_findall.simps [of _ "c # cs"] match_here_plus list.case
          if_True option.case t)
  qed
qed

section \<open>Properties of the analyser\<close>

lemma foldl_append_if:
  "foldl (\<lambda>acc x. if P x then acc @ [f x] else acc) acc0 xs = acc0 @ map f (filter P xs)"
  by (induction xs arbitrary: acc0) simp_all

lemma suggestions_of_analyze:
  "suggestions_of (analyze_resume fre text) =
     map Missing_section (filter (\<lambda>s. \<not> str_in s (lower text)) required_sections)
     @ (if length (re_findall word_re text) < 300 then [Too_short]
        else if 900 < length (re_findall word_re text) then [Too_long] else [])
     @ (if \<not> list_ex (\<lambda>v. str_in v (lower text)) action_verbs then [No_action_verbs] else [])
     @ (if \<not> list_ex (\<lambda>k. str_in k (lower text)) tech_keywords then [No_tech_keywords] else [])
     @ (if re_search email_re text = None then [No_email] else [])
     @ (if re_search phone_re text = None then [No_phone] else [])
     @ (if fre text < 50 then [Low_readability] else [])"
  by (simp add: analyze_resume_def suggestions_of_def Let_def foldl_append_if)

lemma word_count_of_analyze:
  "word_count_of (analyze_resume fre text) = length (re_findall word_re text)"
  by (simp add: analyze_resume_def word_count_of_def Let_def)

lemma readability_of_analyze:
  "readability_of (analyze_resume fre text) = fre text"
  by (simp add: analyze_resume_def readability_of_def Let_def)

lemma score_of_analyze:
  "score_of (analyze_resume fre text) =
     max 0 (py_int (fmul (fdiv (of_int (7 - int (length (suggestions_of (analyze_resume fre text))))) 7) 100))"
  by (simp add: analyze_resume_def score_of_def suggestions_of_def Let_def)

lemma length_suggestions_le:
  "length (suggestions_of (analyze_resume fre text)) \<le> 10"
proof -
  have "length (filter (\<lambda>s. \<not> str_in s (lower text)) required_sections) \<le> length required_sections"
    by (rule length_filter_le)
  also have "\<dots> = 4" by (simp add: required_sections_def)
  finally show ?thesis by (simp add: suggestions_of_analyze)
qed

lemma score_cases:
  fixes n :: nat
  assumes "n \<le> 10"
  shows "max 0 (py_int (fmul (fdiv (of_int (7 - int n)) 7) 100)) =
         [100, 85, 71, 57, 42, 28, 14, 0, 0, 0, 0] ! n"
proof -
  from assms consider "n = 0" | "n = 1" | "n = 2" | "n = 3" | "n = 4" | "n = 5" | "n = 6"
    | "n = 7" | "n = 8" | "n = 9" | "n = 10" by atomize_elim arith
  then show ?thesis
    by cases (simp_all add: score_values)
qed

lemma empty_counts:
  "re_findall sentence_end_re [] = []"
  "re_findall word_re [] = []"
  "split [] = []"
  "re_search email_re [] = None"
  "re_search phone_re [] = None"
  by (simp_all add: re_findall.simps [of _ "[]"] re_search.simps piece_ends.simps
      sentence_end_re_def word_re_def one_def
      split_def email_re_def phone_re_def)

lemma flesch_empty: "flesch_reading_ease [] = fl (1212 / 10)"
  by (simp add: flesch_reading_ease_def empty_counts or_1_def float_eval)


lemma sample_counts:
  "length (re_findall sentence_end_re ''led python a@b.c 1234567890'') = 1"
  "length (re_findall word_re ''led python a@b.c 1234567890'') = 6"
  "sum_list (map (\<lambda>w. length (re_findall vowel_re w)) (split ''led python a@b.c 1234567890'')) = 4"
  by code_simp+

lemma sample_flesch: "flesch_reading_ease ''led python a@b.c 1234567890'' = fl (1443 / 10)"
  by (simp add: flesch_reading_ease_def sample_counts or_1_def float_eval)

lemma sample_checks:
  "lower ''led python a@b.c 1234567890'' = ''led python a@b.c 1234567890''"
  "re_search email_re ''led python a@b.c 1234567890'' = Some ''a@b.c''"
  "re_search phone_re ''led python a@b.c 1234567890'' = Some ''1234567890''"
  by code_simp+

lemma sample_suggestions:
  "suggestions_of (analyze_resume flesch_reading_ease ''led python a@b.c 1234567890'') =
     [Missing_section ''education'', Missing_section ''experience'',
      Missing_section ''projects'', Missing_section ''skills'', Too_short]"
proof -
  have "\<not> fl (1443 / 10) < 50" by (simp add: float_eval)
  then show ?thesis
    by (simp add: suggestions_of_analyze sample_checks sample_counts sample_flesch
        required_sections_def action_verbs_def tech_keywords_def)
qed


lemma hello_word_count: "length (re_findall word_re ''Hello, World! 123'') = 3"
  by code_simp

section \<open>Properties of the text operations\<close>

lemma startswith_iff: "startswith s p = (\<exists>rest. s = p @ rest)"
  by (induction s p rule: startswith.induct) auto

lemma endswith_iff: "endswith s p = (\<exists>pre. s = pre @ p)"
proof -
  have "(\<exists>rest. rev s = rev p @ rest) = (\<exists>pre. s = pre @ p)"
  proof
    assume "\<exists>rest. rev s = rev p @ rest"
    then obtain rest where "rev s = rev p @ rest" by blast
    then have "rev (rev s) = rev (rev p @ rest)" by simp
    then have "s = rev rest @ p" by simp
    then show "\<exists>pre. s = pre @ p" by blast
  next
    assume "\<exists>pre. s = pre @ p"
    then obtain pre where "s = pre @ p" by blast
    then have "rev s = rev p @ rev pre" by simp
    then show "\<exists>rest. rev s = rev p @ rest" by blast
  qed
  then show ?thesis by (simp add: endswith_def startswith_iff)
qed

lemma str_in_iff: "str_in sub s = (\<exists>pre post. s = pre @ sub @ post)"
proof (induction s)
  case Nil
  show ?case by auto
next
  case (Cons c cs)
  show ?case
  proof
    assume "str_in sub (c # cs)"
    then consider "startswith (c # cs) sub" | "str_in sub cs" by auto
    then show "\<exists>pre post. c # cs = pre @ sub @ post"
    proof cases
      case 1
      then obtain rest where "c # cs = [] @ sub @ rest" by (auto simp: startswith_iff)
      then show ?thesis by blast
    next
      case 2
      with Cons.IH obtain pre post where "cs = pre @ sub @ post" by blast
      then have "c # cs = (c # pre) @ sub @ post" by simp
      then show ?thesis by blast
    qed
  next
    assume "\<exists>pre post. c # cs = pre @ sub @ post"
    then obtain pre post where e: "c # cs = pre @ sub @ post" by blast
    show "str_in sub (c # cs)"
    proof (cases pre)
      case Nil
      with e have "c # cs = sub @ post" by simp
      then have "startswith (c # cs) sub" unfolding startswith_iff by blast
      then show ?thesis by simp
    next
      case (Cons d pre')
      with e have "cs = pre' @ sub @ post" by simp
      then have "str_in sub cs" using Cons.IH by blast
      then show ?thesis by simp
    qed
  qed
qed

text \<open>A name occurs in the lower-cased text exactly when the text holds the name in some
  mix of upper and lower case.\<close>

lemma str_in_lower_iff:
  "str_in w (lower text) = (\<exists>pre u post. text = pre @ u @ post \<and> lower u = w)"
proof
  assume "str_in w (lower text)"
  then obtain a b where "map lower_char text = a @ w @ b"
    unfolding str_in_iff lower_def by blast
  then obtain pre rest where 1: "text = pre @ rest" "w @ b = map lower_char rest"
    unfolding map_eq_append_conv by blast
  from 1(2) have "map lower_char rest = w @ b" by simp
  then obtain u post where 2: "rest = u @ post" "w = map lower_char u"
    unfolding map_eq_append_conv by blast
  from 1 2 have "text = pre @ u @ post \<and> lower u = w" by (simp add: lower_def)
  then show "\<exists>pre u post. text = pre @ u @ post \<and> lower u = w" by blast
next
  assume "\<exists>pre u post. text = pre @ u @ post \<and> lower u = w"
  then obtain pre u post where "text = pre @ u @ post" "lower u = w" by blast
  then have "lower text = lower pre @ w @ lower post" by (auto simp: lower_def)
  then show "str_in w (lower text)" unfolding str_in_iff by blast
qed

lemma str_in_append: "str_in w a \<Longrightarrow> str_in w (a @ b)"
proof -
  assume "str_in w a"
  then obtain pre post where "a = pre @ w @ post" unfolding str_in_iff by blast
  then have "a @ b = pre @ w @ (post @ b)" by simp
  then show ?thesis unfolding str_in_iff by blast
qed

lemma lower_append: "lower (a @ b) = lower a @ lower b"
  by (simp add: lower_def)

lemma concat_split_from: "concat (split_from cur s) = cur @ filter (\<lambda>c. \<not> is_space c) s"
  by (induction s arbitrary: cur) simp_all

lemma sum_list_filter_concat:
  "sum_list (map (\<lambda>t. length (filter P t)) ts) = length (filter P (concat ts))"
  by (induction ts) simp_all

lemma vowel_not_space: "is_vowel c \<Longrightarrow> \<not> is_space c"
  by (auto simp: is_vowel_def is_space_def code_point_def)

text \<open>The syllable count of the fallback scorer is the number of vowels of the text.\<close>

lemma syllables_total:
  "sum_list (map (\<lambda>w. length (re_findall vowel_re w)) (split text)) = length (filter is_vowel text)"
proof -
  have "filter is_vowel (filter (\<lambda>c. \<not> is_space c) text) = filter is_vowel text"
    by (auto simp: vowel_not_space intro: filter_cong)
  then show ?thesis
    by (simp add: vowel_re_def findall_one sum_list_filter_concat split_def concat_split_from)
qed

lemmas findall_plus_Suc = findall_plus [unfolded One_nat_def]

lemma takeWhile_stop: "\<not> P c \<Longrightarrow> takeWhile P (xs @ c # b) = takeWhile P xs"
  by (induction xs) simp_all

lemma dropWhile_stop: "\<not> P c \<Longrightarrow> dropWhile P (xs @ c # b) = dropWhile P xs @ c # b"
  by (induction xs) simp_all

text \<open>A character outside the class separates the matches of a repeated class.\<close>

lemma findall_plus_append:
  assumes "\<not> cls c"
  shows "re_findall [Rep cls 1 None] (a @ c # b) =
         re_findall [Rep cls 1 None] a @ re_findall [Rep cls 1 None] b"
proof (induction a rule: length_induct)
  case (1 a)
  show ?case
  proof (cases a)
    case Nil
    then show ?thesis using assms by (simp add: findall_plus_Suc)
  next
    case (Cons x xs)
    show ?thesis
    proof (cases "cls x")
      case False
      have "length xs < length a" by (simp add: Cons)
      with 1 have "re_findall [Rep cls 1 None] (xs @ c # b) =
         re_findall [Rep cls 1 None] xs @ re_findall [Rep cls 1 None] b" by blast
      then show ?thesis using False by (simp add: Cons findall_plus_Suc)
    next
      case True
      have "length (dropWhile cls xs) < length a"
        using length_dropWhile_le [of cls xs] by (simp add: Cons)
      with 1 have "re_findall [Rep cls 1 None] (dropWhile cls xs @ c # b) =
         re_findall [Rep cls 1 None] (dropWhile cls xs) @ re_findall [Rep cls 1 None] b" by blast
      then show ?thesis
        using True assms by (simp add: Cons findall_plus_Suc takeWhile_stop dropWhile_stop)
    qed
  qed
qed

lemma filter_concat_replicate:
  "length (filter P (concat (replicate n xs))) = n * length (filter P xs)"
  by (induction n) simp_all

section \<open>Sample texts\<close>

lemma short_sample_counts:
  "length (re_findall sentence_end_re ''aaaaaaaa'') = 0"
  "length (re_findall word_re ''aaaaaaaa'') = 1"
  "sum_list (map (\<lambda>w. length (re_findall vowel_re w)) (split ''aaaaaaaa'')) = 8"
  "re_search email_re ''aaaaaaaa'' = None"
  "re_search phone_re ''aaaaaaaa'' = None"
  "lower ''aaaaaaaa'' = ''aaaaaaaa''"
  by code_simp+

lemma short_sample_flesch: "flesch_reading_ease ''aaaaaaaa'' = - 471"
  by (simp add: flesch_reading_ease_def short_sample_counts or_1_def float_eval)

lemma example_split:
  "example_resume =
     ''Education, Experience, Projects and Skills. Developed Python tools. jane.doe@example.com +1 555-123-4567''
     @ CHR '' '' # concat (replicate 300 ''x. '')"
  by (simp add: example_resume_def)

lemma filler_words: "length (re_findall word_re (concat (replicate n ''x. ''))) = n"
  by (induction n) (simp_all add: word_re_def findall_plus_Suc is_word_char_def code_point_def)

lemma example_head_counts:
  "length (re_findall word_re ''Education, Experience, Projects and Skills. Developed Python tools. jane.doe@example.com +1 555-123-4567'') = 16"
  "lower ''Education, Experience, Projects and Skills. Developed Python tools. jane.doe@example.com +1 555-123-4567''
     = ''education, experience, projects and skills. developed python tools. jane.doe@example.com +1 555-123-4567''"
  by code_simp+

lemma example_word_count: "length (re_findall word_re example_resume) = 316"
proof -
  have "\<not> is_word_char CHR '' ''" by (simp add: is_word_char_def code_point_def)
  then have "re_findall word_re example_resume =
      re_findall word_re ''Education, Experience, Projects and Skills. Developed Python tools. jane.doe@example.com +1 555-123-4567''
      @ re_findall word_re (concat (replicate 300 ''x. ''))"
    unfolding example_split word_re_def by (rule findall_plus_append)
  then show ?thesis
    by (simp add: example_head_counts(1) filler_words)
qed

lemma example_sentences: "length (re_findall sentence_end_re example_resume) = 304"
  by (simp add: sentence_end_re_def findall_one example_resume_def filter_concat_replicate
      del: filter_concat)

lemma example_syllables:
  "sum_list (map (\<lambda>w. length (re_findall vowel_re w)) (split example_resume)) = 30"
  by (simp add: syllables_total example_resume_def filter_concat_replicate is_vowel_def
      del: filter_concat)

lemma example_flesch: "flesch_reading_ease example_resume = fl (1977 / 10)"
  by (simp add: flesch_reading_ease_def example_word_count example_sentences example_syllables
      or_1_def float_eval)

lemma example_lower:
  "lower example_resume =
     ''education, experience, projects and skills. developed python tools. jane.doe@example.com +1 555-123-4567''
     @ lower (CHR '' '' # concat (replicate 300 ''x. ''))"
  unfolding example_split lower_append example_head_counts(2) ..

lemma example_email: "re_search email_re example_resume \<noteq> None"
proof -
  have "example_resume =
      ''Education, Experience, Projects and Skills. Developed Python tools. ''
      @ ''jane.doe'' @ CHR ''@'' # ''example'' @ CHR ''.'' # ''com''
      @ ('' +1 555-123-4567 '' @ concat (replicate 300 ''x. ''))"
    by (simp add: example_resume_def)
  moreover have "list_all non_space ''jane.doe''" "list_all non_space ''example''"
    "list_all non_space ''com''"
    by (simp_all add: non_space_def is_space_def code_point_def)
  ultimately show ?thesis
    unfolding search_email_iff by blast
qed

lemma example_phone: "re_search phone_re example_resume \<noteq> None"
proof -
  have "example_resume =
      ''Education, Experience, Projects and Skills. Developed Python tools. jane.doe@example.com +''
      @ CHR ''1'' # '' 555-123-456'' @ CHR ''7'' # ('' '' @ concat (replicate 300 ''x. ''))"
    by (simp add: example_resume_def)
  moreover have "is_digit CHR ''1''" "is_digit CHR ''7''" "8 \<le> length '' 555-123-456''"
    "list_all (\<lambda>c. is_digit c \<or> is_space c \<or> c = CHR ''-'') '' 555-123-456''"
    by (simp_all add: is_digit_def is_space_def code_point_def)
  ultimately show ?thesis
    unfolding search_phone_iff by blast
qed

lemma example_checks:
  "list_all (\<lambda>s. str_in s (lower example_resume)) required_sections"
  "list_ex (\<lambda>v. str_in v (lower example_resume)) action_verbs"
  "list_ex (\<lambda>k. str_in k (lower example_resume)) tech_keywords"
  "50 \<le> flesch_reading_ease example_resume"
proof -
  have h: "str_in w ''education, experience, projects and skills. developed python tools. jane.doe@example.com +1 555-123-4567''
      \<Longrightarrow> str_in w (lower example_resume)" for w
    unfolding example_lower by (rule str_in_append)
  show "list_all (\<lambda>s. str_in s (lower example_resume)) required_sections"
    by (simp add: required_sections_def h)
  show "list_ex (\<lambda>v. str_in v (lower example_resume)) action_verbs"
    by (simp add: action_verbs_def h)
  show "list_ex (\<lambda>k. str_in k (lower example_resume)) tech_keywords"
    by (simp add: tech_keywords_def h)
  show "50 \<le> flesch_reading_ease example_resume"
    by (simp add: example_flesch float_eval)
qed

lemma attained_100: "score_of (analyze_resume flesch_reading_ease example_resume) = 100"
proof -
  have f: "filter (\<lambda>s. \<not> str_in s (lower example_resume)) required_sections = []"
    using example_checks(1) by (simp add: required_sections_def)
  have "suggestions_of (analyze_resume flesch_reading_ease example_resume) = []"
    using example_checks(2-4) example_email example_phone
    by (simp add: suggestions_of_analyze f example_word_count)
  then show ?thesis
    by (simp add: score_of_analyze score_values)
qed

text \<open>Seven short texts, each with one suggestion more than the one before: with
  \<open>example_resume\<close> they show that each of the eight score values is returned for
  some text.\<close>

lemma attained_85_facts:
  "length (re_findall sentence_end_re ''education experience projects skills led sql a@b.c 1234567890 x. x. x. x. x. x. x. x. x. x. x. x.'') = 13"
  "length (re_findall word_re ''education experience projects skills led sql a@b.c 1234567890 x. x. x. x. x. x. x. x. x. x. x. x.'') = 22"
  "sum_list (map (\<lambda>w. length (re_findall vowel_re w)) (split ''education experience projects skills led sql a@b.c 1234567890 x. x. x. x. x. x. x. x. x. x. x. x.'')) = 15"
  "re_search email_re ''education experience projects skills led sql a@b.c 1234567890 x. x. x. x. x. x. x. x. x. x. x. x.'' = Some ''a@b.c''"
  "re_search phone_re ''education experience projects skills led sql a@b.c 1234567890 x. x. x. x. x. x. x. x. x. x. x. x.'' = Some ''1234567890''"
  "lower ''education experience projects skills led sql a@b.c 1234567890 x. x. x. x. x. x. x. x. x. x. x. x.'' = ''education experience projects skills led sql a@b.c 1234567890 x. x. x. x. x. x. x. x. x. x. x. x.''"
  by code_simp+

lemma attained_85:
  "score_of (analyze_resume flesch_reading_ease ''education experience projects skills led sql a@b.c 1234567890 x. x. x. x. x. x. x. x. x. x. x. x.'') = 85"
proof -
  have r: "flesch_reading_ease ''education experience projects skills led sql a@b.c 1234567890 x. x. x. x. x. x. x. x. x. x. x. x.'' = fl (1474 / 10)"
    by (simp add: flesch_reading_ease_def attained_85_facts or_1_def float_eval)
  have "\<not> fl (1474 / 10) < 50" by (simp add: float_eval)
  then have "length (suggestions_of (analyze_resume flesch_reading_ease ''education experience projects skills led sql a@b.c 1234567890 x. x. x. x. x. x. x. x. x. x. x. x.'')) = 1"
    by (simp add: suggestions_of_analyze attained_85_facts r
        required_sections_def action_verbs_def tech_keywords_def)
  then show ?thesis
    by (simp add: score_of_analyze score_values)
qed

lemma attained_71_facts:
  "length (re_findall sentence_end_re ''education experience projects skills led sql a@b.c x. x. x. x. x. x. x. x. x. x. x. x.'') = 13"
  "length (re_findall word_re ''education experience projects skills led sql a@b.c x. x. x. x. x. x. x. x. x. x. x. x.'') = 21"
  "sum_list (map (\<lambda>w. length (re_findall vowel_re w)) (split ''education experience projects skills led sql a@b.c x. x. x. x. x. x. x. x. x. x. x. x.'')) = 15"
  "re_search email_re ''education experience projects skills led sql a@b.c x. x. x. x. x. x. x. x. x. x. x. x.'' = Some ''a@b.c''"
  "re_search phone_re ''education experience projects skills led sql a@b.c x. x. x. x. x. x. x. x. x. x. x. x.'' = None"
  "lower ''education experience projects skills led sql a@b.c x. x. x. x. x. x. x. x. x. x. x. x.'' = ''education experience projects skills led sql a@b.c x. x. x. x. x. x. x. x. x. x. x. x.''"
  by code_simp+

lemma attained_71:
  "score_of (analyze_resume flesch_reading_ease ''education experience projects skills led sql a@b.c x. x. x. x. x. x. x. x. x. x. x. x.'') = 71"
proof -
  have r: "flesch_reading_ease ''education experience projects skills led sql a@b.c x. x. x. x. x. x. x. x. x. x. x. x.'' = fl (1448 / 10)"
    by (simp add: flesch_reading_ease_def attained_71_facts or_1_def float_eval)
  have "\<not> fl (1448 / 10) < 50" by (simp add: float_eval)
  then have "length (suggestions_of (analyze_resume flesch_reading_ease ''education experience projects skills led sql a@b.c x. x. x. x. x. x. x. x. x. x. x. x.'')) = 2"
    by (simp add: suggestions_of_analyze attained_71_facts r
        required_sections_def action_verbs_def tech_keywords_def)
  then show ?thesis
    by (simp add: score_of_analyze score_values)
qed

lemma attained_57_facts:
  "length (re_findall sentence_end_re ''education experience projects skills led sql x. x. x. x. x. x. x. x. x. x. x. x.'') = 12"
  "length (re_findall word_re ''education experience projects skills led sql x. x. x. x. x. x. x. x. x. x. x. x.'') = 18"
  "sum_list (map (\<lambda>w. length (re_findall vowel_re w)) (split ''education experience projects skills led sql x. x. x. x. x. x. x. x. x. x. x. x.'')) = 14"
  "re_search email_re ''education experience projects skills led sql x. x. x. x. x. x. x. x. x. x. x. x.'' = None"
  "re_search phone_re ''education experience projects skills led sql x. x. x. x. x. x. x. x. x. x. x. x.'' = None"
  "lower ''education experience projects skills led sql x. x. x. x. x. x. x. x. x. x. x. x.'' = ''education experience projects skills led sql x. x. x. x. x. x. x. x. x. x. x. x.''"
  by code_simp+

lemma attained_57:
  "score_of (analyze_resume flesch_reading_ease ''education experience projects skills led sql x. x. x. x. x. x. x. x. x. x. x. x.'') = 57"
proof -
  have r: "flesch_reading_ease ''education experience projects skills led sql x. x. x. x. x. x. x. x. x. x. x. x.'' = fl (1395 / 10)"
    by (simp add: flesch_reading_ease_def attained_57_facts or_1_def float_eval)
  have "\<not> fl (1395 / 10) < 50" by (simp add: float_eval)
  then have "length (suggestions_of (analyze_resume flesch_reading_ease ''education experience projects skills led sql x. x. x. x. x. x. x. x. x. x. x. x.'')) = 3"
    by (simp add: suggestions_of_analyze attained_57_facts r
        required_sections_def action_verbs_def tech_keywords_def)
  then show ?thesis
    by (simp add: score_of_analyze score_values)
qed

lemma attained_42_facts:
  "length (re_findall sentence_end_re ''education experience projects skills led x. x. x. x. x. x. x. x. x. x. x. x.'') = 12"
  "length (re_findall word_re ''education experience projects skills led x. x. x. x. x. x. x. x. x. x. x. x.'') = 17"
  "sum_list (map (\<lambda>w. length (re_findall vowel_re w)) (split ''education experience projects skills led x. x. x. x. x. x. x. x. x. x. x. x.'')) = 14"
  "re_search email_re ''education experience projects skills led x. x. x. x. x. x. x. x. x. x. x. x.'' = None"
  "re_search phone_re ''education experience projects skills led x. x. x. x. x. x. x. x. x. x. x. x.'' = None"
  "lower ''education experience projects skills led x. x. x. x. x. x. x. x. x. x. x. x.'' = ''education experience projects skills led x. x. x. x. x. x. x. x. x. x. x. x.''"
  by code_simp+

lemma attained_42:
  "score_of (analyze_resume flesch_reading_ease ''education experience projects skills led x. x. x. x. x. x. x. x. x. x. x. x.'') = 42"
proof -
  have r: "flesch_reading_ease ''education experience projects skills led x. x. x. x. x. x. x. x. x. x. x. x.'' = fl (1357 / 10)"
    by (simp add: flesch_reading_ease_def attained_42_facts or_1_def float_eval)
  have "\<not> fl (1357 / 10) < 50" by (simp add: float_eval)
  then have "length (suggestions_of (analyze_resume flesch_reading_ease ''education experience projects skills led x. x. x. x. x. x. x. x. x. x. x. x.'')) = 4"
    by (simp add: suggestions_of_analyze attained_42_facts r
        required_sections_def action_verbs_def tech_keywords_def)
  then show ?thesis
    by (simp add: score_of_analyze score_values)
qed

lemma attained_28_facts:
  "length (re_findall sentence_end_re ''education experience projects skills x. x. x. x. x. x. x. x. x. x. x. x.'') = 12"
  "length (re_findall word_re ''education experience projects skills x. x. x. x. x. x. x. x. x. x. x. x.'') = 16"
  "sum_list (map (\<lambda>w. length (re_findall vowel_re w)) (split ''education experience projects skills x. x. x. x. x. x. x. x. x. x. x. x.'')) = 13"
  "re_search email_re ''education experience projects skills x. x. x. x. x. x. x. x. x. x. x. x.'' = None"
  "re_search phone_re ''education experience projects skills x. x. x. x. x. x. x. x. x. x. x. x.'' = None"
  "lower ''education experience projects skills x. x. x. x. x. x. x. x. x. x. x. x.'' = ''education experience projects skills x. x. x. x. x. x. x. x. x. x. x. x.''"
  by code_simp+

lemma attained_28:
  "score_of (analyze_resume flesch_reading_ease ''education experience projects skills x. x. x. x. x. x. x. x. x. x. x. x.'') = 28"
proof -
  have r: "flesch_reading_ease ''education experience projects skills x. x. x. x. x. x. x. x. x. x. x. x.'' = fl (1367 / 10)"
    by (simp add: flesch_reading_ease_def attained_28_facts or_1_def float_eval)
  have "\<not> fl (1367 / 10) < 50" by (simp add: float_eval)
  then have "length (suggestions_of (analyze_resume flesch_reading_ease ''education experience projects skills x. x. x. x. x. x. x. x. x. x. x. x.'')) = 5"
    by (simp add: suggestions_of_analyze attained_28_facts r
        required_sections_def action_verbs_def tech_keywords_def)
  then show ?thesis
    by (simp add: score_of_analyze score_values)
qed

lemma attained_14_facts:
  "length (re_findall sentence_end_re ''education experience projects x. x. x. x. x. x. x. x. x. x. x. x.'') = 12"
  "length (re_findall word_re ''education experience projects x. x. x. x. x. x. x. x. x. x. x. x.'') = 15"
  "sum_list (map (\<lambda>w. length (re_findall vowel_re w)) (split ''education experience projects x. x. x. x. x. x. x. x. x. x. x. x.'')) = 12"
  "re_search email_re ''education experience projects x. x. x. x. x. x. x. x. x. x. x. x.'' = None"
  "re_search phone_re ''education experience projects x. x. x. x. x. x. x. x. x. x. x. x.'' = None"
  "lower ''education experience projects x. x. x. x. x. x. x. x. x. x. x. x.'' = ''education experience projects x. x. x. x. x. x. x. x. x. x. x. x.''"
  by code_simp+

lemma attained_14:
  "score_of (analyze_resume flesch_reading_ease ''education experience projects x. x. x. x. x. x. x. x. x. x. x. x.'') = 14"
proof -
  have r: "flesch_reading_ease ''education experience projects x. x. x. x. x. x. x. x. x. x. x. x.'' = fl (1379 / 10)"
    by (simp add: flesch_reading_ease_def attained_14_facts or_1_def float_eval)
  have "\<not> fl (1379 / 10) < 50" by (simp add: float_eval)
  then have "length (suggestions_of (analyze_resume flesch_reading_ease ''education experience projects x. x. x. x. x. x. x. x. x. x. x. x.'')) = 6"
    by (simp add: suggestions_of_analyze attained_14_facts r
        required_sections_def action_verbs_def tech_keywords_def)
  then show ?thesis
    by (simp add: score_of_analyze score_values)
qed

lemma attained_0_facts:
  "length (re_findall sentence_end_re ''education experience x. x. x. x. x. x. x. x. x. x. x. x.'') = 12"
  "length (re_findall word_re ''education experience x. x. x. x. x. x. x. x. x. x. x. x.'') = 14"
  "sum_list (map (\<lambda>w. length (re_findall vowel_re w)) (split ''education experience x. x. x. x. x. x. x. x. x. x. x. x.'')) = 10"
  "re_search email_re ''education experience x. x. x. x. x. x. x. x. x. x. x. x.'' = None"
  "re_search phone_re ''education experience x. x. x. x. x. x. x. x. x. x. x. x.'' = None"
  "lower ''education experience x. x. x. x. x. x. x. x. x. x. x. x.'' = ''education experience x. x. x. x. x. x. x. x. x. x. x. x.''"
  by code_simp+

lemma attained_0:
  "score_of (analyze_resume flesch_reading_ease ''education experience x. x. x. x. x. x. x. x. x. x. x. x.'') = 0"
proof -
  have r: "flesch_reading_ease ''education experience x. x. x. x. x. x. x. x. x. x. x. x.'' = fl (1452 / 10)"
    by (simp add: flesch_reading_ease_def attained_0_facts or_1_def float_eval)
  have "\<not> fl (1452 / 10) < 50" by (simp add: float_eval)
  then have "length (suggestions_of (analyze_resume flesch_reading_ease ''education experience x. x. x. x. x. x. x. x. x. x. x. x.'')) = 7"
    by (simp add: suggestions_of_analyze attained_0_facts r
        required_sections_def action_verbs_def tech_keywords_def)
  then show ?thesis
    by (simp add: score_of_analyze score_values)
qed

section \<open>The claims\<close>

text \<open>
  C1, as stated: the score is \<open>max(0, round(100 * passed / 7))\<close> with
  \<open>passed = 7 - len(suggestions)\<close>. The program truncates instead of rounding: the
  text below gets five suggestions, the program returns 28, and the stated formula gives 29.
\<close>

theorem C1_counterexample:
  "score_of (analyze_resume flesch_reading_ease ''led python a@b.c 1234567890'') = 28
   \<and> max 0 (py_round (100 * of_int (7 - int (length (suggestions_of
         (analyze_resume flesch_reading_ease ''led python a@b.c 1234567890'')))) / 7)) = 29"
  by (simp add: score_of_analyze sample_suggestions score_values float_eval)

text \<open>
  C1, amended: for every text and every scorer, the score is
  \<open>max(0, trunc(100 * passed / 7))\<close>, where \<open>trunc\<close> drops the fraction and
  \<open>passed = 7 - len(suggestions)\<close>, and it is an integer between 0 and 100. The
  quotient on the right is the exact one: the two rounded floating-point operations of the
  program do not change the integer part.
\<close>

theorem C1_score_truncates:
  "score_of (analyze_resume fre text) =
     max 0 (py_int (100 * of_int (7 - int (length (suggestions_of (analyze_resume fre text)))) / 7))
   \<and> 0 \<le> score_of (analyze_resume fre text) \<and> score_of (analyze_resume fre text) \<le> 100"
proof -
  define n where "n = length (suggestions_of (analyze_resume fre text))"
  have n: "n \<le> 10" by (simp add: n_def length_suggestions_le)
  have s: "score_of (analyze_resume fre text) = [100, 85, 71, 57, 42, 28, 14, 0, 0, 0, 0] ! n"
    by (simp only: score_of_analyze n_def [symmetric] score_cases [OF n])
  from n consider "n = 0" | "n = 1" | "n = 2" | "n = 3" | "n = 4" | "n = 5" | "n = 6"
    | "n = 7" | "n = 8" | "n = 9" | "n = 10" by atomize_elim arith
  then have "[100, 85, 71, 57, 42, 28, 14, 0, 0, 0, 0] ! n
      = max 0 (py_int (100 * of_int (7 - int n) / 7))
    \<and> (0::int) \<le> [100, 85, 71, 57, 42, 28, 14, 0, 0, 0, 0] ! n
    \<and> [100, 85, 71, 57, 42, 28, 14, 0, 0, 0, 0] ! n \<le> (100::int)"
    by cases (simp_all add: float_eval)
  then show ?thesis unfolding s unfolding n_def .
qed

text \<open>
  C2: for a text that holds none of the four section names (in any case), has fewer than 300
  words, no action verb, no technical keyword, no match of the email pattern, no match of
  the phone pattern, and a readability below 50, the analyser returns ten suggestions (four
  for the sections and one for each of the six other checks) and score 0.
\<close>

theorem C2_all_checks_fail:
  assumes "\<not> list_ex (\<lambda>s. str_in s (lower text)) required_sections"
    and "length (re_findall word_re text) < 300"
    and "\<not> list_ex (\<lambda>v. str_in v (lower text)) action_verbs"
    and "\<not> list_ex (\<lambda>k. str_in k (lower text)) tech_keywords"
    and "re_search email_re text = None"
    and "re_search phone_re text = None"
    and "fre text < 50"
  shows "suggestions_of (analyze_resume fre text) =
           [Missing_section ''education'', Missing_section ''experience'',
            Missing_section ''projects'', Missing_section ''skills'',
            Too_short, No_action_verbs, No_tech_keywords, No_email, No_phone, Low_readability]
         \<and> length (suggestions_of (analyze_resume fre text)) = 10
         \<and> score_of (analyze_resume fre text) = 0"
proof -
  have f: "filter (\<lambda>s. \<not> str_in s (lower text)) required_sections = required_sections"
    using assms(1) by (simp add: required_sections_def)
  have s: "suggestions_of (analyze_resume fre text) =
           [Missing_section ''education'', Missing_section ''experience'',
            Missing_section ''projects'', Missing_section ''skills'',
            Too_short, No_action_verbs, No_tech_keywords, No_email, No_phone, Low_readability]"
    using assms(2-7) by (simp add: suggestions_of_analyze f) (simp add: required_sections_def)
  have "score_of (analyze_resume fre text) = 0"
    by (simp add: score_of_analyze s score_values)
  with s show ?thesis by simp
qed

theorem C2_all_checks_fail_witness:
  "\<not> list_ex (\<lambda>s. str_in s (lower ''aaaaaaaa'')) required_sections
   \<and> length (re_findall word_re ''aaaaaaaa'') < 300
   \<and> \<not> list_ex (\<lambda>v. str_in v (lower ''aaaaaaaa'')) action_verbs
   \<and> \<not> list_ex (\<lambda>k. str_in k (lower ''aaaaaaaa'')) tech_keywords
   \<and> re_search email_re ''aaaaaaaa'' = None
   \<and> re_search phone_re ''aaaaaaaa'' = None
   \<and> flesch_reading_ease ''aaaaaaaa'' < 50
   \<and> length (suggestions_of (analyze_resume flesch_reading_ease ''aaaaaaaa'')) = 10
   \<and> score_of (analyze_resume flesch_reading_ease ''aaaaaaaa'') = 0"
proof -
  have 1: "\<not> list_ex (\<lambda>s. str_in s (lower ''aaaaaaaa'')) required_sections"
    by (simp add: short_sample_counts required_sections_def)
  have 2: "length (re_findall word_re ''aaaaaaaa'') < 300"
    by (simp add: short_sample_counts)
  have 3: "\<not> list_ex (\<lambda>v. str_in v (lower ''aaaaaaaa'')) action_verbs"
    by (simp add: short_sample_counts action_verbs_def)
  have 4: "\<not> list_ex (\<lambda>k. str_in k (lower ''aaaaaaaa'')) tech_keywords"
    by (simp add: short_sample_counts tech_keywords_def)
  have 5: "re_search email_re ''aaaaaaaa'' = None" by (rule short_sample_counts)
  have 6: "re_search phone_re ''aaaaaaaa'' = None" by (rule short_sample_counts)
  have 7: "flesch_reading_ease ''aaaaaaaa'' < 50" by (simp add: short_sample_flesch)
  from C2_all_checks_fail [of "''aaaaaaaa''" flesch_reading_ease, OF 1 2 3 4 5 6 7] 1 2 3 4 5 6 7
  show ?thesis by blast
qed

text \<open>
  C3: for a text that holds the four section names (in any case), has from 300 to 900 words,
  at least one of the eight action verbs and one of the eleven technical keywords (in any
  case), a match of the email pattern, a match of the phone pattern, and a readability of 50
  or more, the analyser returns no suggestion and score 100.
\<close>

theorem C3_all_checks_pass:
  assumes "list_all (\<lambda>s. str_in s (lower text)) required_sections"
    and "300 \<le> length (re_findall word_re text)"
    and "length (re_findall word_re text) \<le> 900"
    and "list_ex (\<lambda>v. str_in v (lower text)) action_verbs"
    and "list_ex (\<lambda>k. str_in k (lower text)) tech_keywords"
    and "re_search email_re text \<noteq> None"
    and "re_search phone_re text \<noteq> None"
    and "50 \<le> fre text"
  shows "suggestions_of (analyze_resume fre text) = [] \<and> score_of (analyze_resume fre text) = 100"
proof -
  have f: "filter (\<lambda>s. \<not> str_in s (lower text)) required_sections = []"
    using assms(1) by (simp add: required_sections_def)
  have s: "suggestions_of (analyze_resume fre text) = []"
    using assms(2-8) by (simp add: suggestions_of_analyze f)
  have "score_of (analyze_resume fre text) = 100"
    by (simp add: score_of_analyze s score_values)
  with s show ?thesis by simp
qed

theorem C3_all_checks_pass_witness:
  "list_all (\<lambda>s. str_in s (lower example_resume)) required_sections
   \<and> 300 \<le> length (re_findall word_re example_resume)
   \<and> length (re_findall word_re example_resume) \<le> 900
   \<and> list_ex (\<lambda>v. str_in v (lower example_resume)) action_verbs
   \<and> list_ex (\<lambda>k. str_in k (lower example_resume)) tech_keywords
   \<and> re_search email_re example_resume \<noteq> None
   \<and> re_search phone_re example_resume \<noteq> None
   \<and> 50 \<le> flesch_reading_ease example_resume
   \<and> suggestions_of (analyze_resume flesch_reading_ease example_resume) = []
   \<and> score_of (analyze_resume flesch_reading_ease example_resume) = 100"
proof -
  note 1 = example_checks(1)
  have 2: "300 \<le> length (re_findall word_re example_resume)"
    by (simp add: example_word_count)
  have 3: "length (re_findall word_re example_resume) \<le> 900"
    by (simp add: example_word_count)
  note 4 = example_checks(2) and 5 = example_checks(3)
  note 6 = example_email and 7 = example_phone and 8 = example_checks(4)
  from C3_all_checks_pass [of example_resume flesch_reading_ease, OF 1 2 3 4 5 6 7 8]
    1 2 3 4 5 6 7 8
  show ?thesis by blast
qed

text \<open>
  C4: for every text, the fallback scorer returns
  \<open>206.835 - 1.015 * (words / sentences) - 84.6 * (syllables / words)\<close> rounded to one
  decimal, where \<open>sentences\<close> is the number of characters \<open>.\<close>, \<open>!\<close> and \<open>?\<close>
  of the text, \<open>words\<close> the number of matches of \<^verbatim>\<open>\w+\<close>, \<open>syllables\<close> the sum,
  over the tokens of the text split at whitespace, of the number of vowels
  \<^verbatim>\<open>aeiouyAEIOUY\<close> in the token, each of the three at least 1. The arithmetic is that
  of Python floats: every operation rounds to binary64.
\<close>

theorem C4_fallback_scorer:
  "flesch_reading_ease text =
     (let sentences = max 1 (length (filter (\<lambda>c. c = CHR ''.'' \<or> c = CHR ''!'' \<or> c = CHR ''?'') text));
          words = max 1 (length (re_findall word_re text));
          syllables = max 1 (sum_list (map (\<lambda>token. length (filter is_vowel token)) (split text)))
      in round1 (fsub (fsub (fl (206835 / 1000))
                            (fmul (fl (1015 / 1000)) (fdiv (of_nat words) (of_nat sentences))))
                      (fmul (fl (846 / 10)) (fdiv (of_nat syllables) (of_nat words)))))"
proof -
  have o: "or_1 n = max 1 n" for n by (simp add: or_1_def)
  show ?thesis
    by (simp only: flesch_reading_ease_def o sentence_end_re_def vowel_re_def findall_one
        length_map Let_def)
qed

text \<open>
  C5: the length rule appends at most one suggestion: the one for a text that is too short
  exactly when the word count is below 300, the one for a text that is too long exactly when
  the word count is above 900, and none from 300 to 900. The word count is the number of
  matches of \<^verbatim>\<open>\w+\<close>; the text \<^verbatim>\<open>Hello, World! 123\<close> has word count 3.
\<close>

theorem C5_length_rule:
  "(Too_short \<in> set (suggestions_of (analyze_resume fre text))
      \<longleftrightarrow> word_count_of (analyze_resume fre text) < 300)
   \<and> (Too_long \<in> set (suggestions_of (analyze_resume fre text))
      \<longleftrightarrow> 900 < word_count_of (analyze_resume fre text))
   \<and> count_list (suggestions_of (analyze_resume fre text)) Too_short
       + count_list (suggestions_of (analyze_resume fre text)) Too_long \<le> 1
   \<and> word_count_of (analyze_resume fre text) = length (re_findall word_re text)
   \<and> word_count_of (analyze_resume fre ''Hello, World! 123'') = 3"
proof -
  have m: "count_list (map Missing_section xs) Too_short = 0"
    "count_list (map Missing_section xs) Too_long = 0" for xs
    by (induction xs) simp_all
  show ?thesis
    by (auto simp add: suggestions_of_analyze word_count_of_analyze hello_word_count m)
qed

text \<open>
  C6: the pattern of the phone check matches \<^verbatim>\<open>+1 555-123-4567\<close> (the whole of
  it, the leading \<open>+\<close> included) and does not match \<^verbatim>\<open>12345\<close>; the analyser
  appends the phone suggestion exactly when the pattern has no match in the text; and the
  pattern has a match exactly when the text holds a digit, then eight or more characters
  that are digits, whitespace or hyphens, then a digit (the optional \<open>+\<close> before the
  first digit makes no difference to whether there is a match).
\<close>

theorem C6_phone_check:
  "re_search phone_re ''+1 555-123-4567'' = Some ''+1 555-123-4567''
   \<and> re_search phone_re ''12345'' = None
   \<and> (No_phone \<in> set (suggestions_of (analyze_resume fre text))
        \<longleftrightarrow> re_search phone_re text = None)
   \<and> (re_search phone_re text \<noteq> None \<longleftrightarrow>
        (\<exists>pre d1 mid d2 post. text = pre @ d1 # mid @ d2 # post
           \<and> is_digit d1 \<and> 8 \<le> length mid
           \<and> list_all (\<lambda>c. is_digit c \<or> is_space c \<or> c = CHR ''-'') mid \<and> is_digit d2))"
proof -
  have a: "re_search phone_re ''+1 555-123-4567'' = Some ''+1 555-123-4567''" by code_simp
  have b: "re_search phone_re ''12345'' = None" by code_simp
  have c: "(No_phone \<in> set (suggestions_of (analyze_resume fre text)))
        = (re_search phone_re text = None)"
    by (auto simp add: suggestions_of_analyze)
  from a b c search_phone_iff [of "text"] show ?thesis by (simp only: simp_thms)
qed

text \<open>
  C7: the pattern of the email check matches \<^verbatim>\<open>jane.doe@example.com\<close> and does
  not match \<^verbatim>\<open>jane.doe(at)example.com\<close>; the analyser appends the email suggestion
  exactly when the pattern has no match in the text; and the pattern has a match exactly
  when the text holds one or more characters other than whitespace, an \<open>@\<close>, one or
  more characters other than whitespace, a dot, and one or more characters other than
  whitespace.
\<close>

theorem C7_email_check:
  "re_search email_re ''jane.doe@example.com'' = Some ''jane.doe@example.com''
   \<and> re_search email_re ''jane.doe(at)example.com'' = None
   \<and> (No_email \<in> set (suggestions_of (analyze_resume fre text))
        \<longleftrightarrow> re_search email_re text = None)
   \<and> (re_search email_re text \<noteq> None \<longleftrightarrow>
        (\<exists>pre a b c post. text = pre @ a @ CHR ''@'' # b @ CHR ''.'' # c @ post
           \<and> a \<noteq> [] \<and> list_all non_space a \<and> b \<noteq> [] \<and> list_all non_space b
           \<and> c \<noteq> [] \<and> list_all non_space c))"
proof -
  have a: "re_search email_re ''jane.doe@example.com'' = Some ''jane.doe@example.com''"
    by code_simp
  have b: "re_search email_re ''jane.doe(at)example.com'' = None" by code_simp
  have c: "(No_email \<in> set (suggestions_of (analyze_resume fre text)))
        = (re_search email_re text = None)"
    by (auto simp add: suggestions_of_analyze)
  from a b c search_email_iff [of "text"] show ?thesis by (simp only: simp_thms)
qed

text \<open>
  C8: for an uploaded file whose name ends with neither \<open>.pdf\<close> nor \<open>.docx\<close>,
  \<open>extract_text\<close> returns the empty string and calls neither extraction library,
  whatever the libraries would do with the file.
\<close>

theorem C8_unsupported_extension:
  assumes "\<not> endswith (name uploaded) ''.pdf''"
    and "\<not> endswith (name uploaded) ''.docx''"
  shows "extract_text pdf_open page_text docx_process uploaded = ([], Inr [])"
  using assms by (simp add: extract_text_def)

theorem C8_unsupported_extension_witness:
  "\<not> endswith (name \<lparr>name = ''resume.txt'', content = [80, 75]\<rparr>) ''.pdf''
   \<and> \<not> endswith (name \<lparr>name = ''resume.txt'', content = [80, 75]\<rparr>) ''.docx''
   \<and> extract_text (\<lambda>f. Inl (Library_error ''not a PDF file'') :: error + unit list)
         (\<lambda>p. Inr None) (\<lambda>f. Inl (Library_error ''not a DOCX file''))
         \<lparr>name = ''resume.txt'', content = [80, 75]\<rparr> = ([], Inr [])"
proof -
  have a: "\<not> endswith (name \<lparr>name = ''resume.txt'', content = [80, 75]\<rparr>) ''.pdf''"
    by (simp add: endswith_def)
  have b: "\<not> endswith (name \<lparr>name = ''resume.txt'', content = [80, 75]\<rparr>) ''.docx''"
    by (simp add: endswith_def)
  show ?thesis
    using a b C8_unsupported_extension [OF a b] by blast
qed

text \<open>
  C9: the score is 100 exactly when there is no suggestion; with at least one suggestion it
  is at most 85; it is one of 0, 14, 28, 42, 57, 71, 85, 100; and each of these eight
  values is the score of some text (with the fallback scorer).
\<close>

theorem C9_score_values:
  "(score_of (analyze_resume fre text) = 100 \<longleftrightarrow> suggestions_of (analyze_resume fre text) = [])
   \<and> (suggestions_of (analyze_resume fre text) \<noteq> [] \<longrightarrow> score_of (analyze_resume fre text) \<le> 85)
   \<and> score_of (analyze_resume fre text) \<in> {0, 14, 28, 42, 57, 71, 85, 100}
   \<and> range (\<lambda>t. score_of (analyze_resume flesch_reading_ease t)) = {0, 14, 28, 42, 57, 71, 85, 100}"
proof -
  have v: "score_of (analyze_resume g t) \<in> {0, 14, 28, 42, 57, 71, 85, 100}
      \<and> (score_of (analyze_resume g t) = 100) = (suggestions_of (analyze_resume g t) = [])
      \<and> (suggestions_of (analyze_resume g t) \<noteq> [] \<longrightarrow> score_of (analyze_resume g t) \<le> 85)"
    for g t
  proof -
    define n where "n = length (suggestions_of (analyze_resume g t))"
    have n: "n \<le> 10" by (simp add: n_def length_suggestions_le)
    have s: "score_of (analyze_resume g t) = [100, 85, 71, 57, 42, 28, 14, 0, 0, 0, 0] ! n"
      by (simp only: score_of_analyze n_def [symmetric] score_cases [OF n])
    have e: "(suggestions_of (analyze_resume g t) = []) = (n = 0)"
      by (simp add: n_def)
    from n consider "n = 0" | "n = 1" | "n = 2" | "n = 3" | "n = 4" | "n = 5" | "n = 6"
      | "n = 7" | "n = 8" | "n = 9" | "n = 10" by atomize_elim arith
    then show ?thesis
      unfolding s e by cases simp_all
  qed
  have "range (\<lambda>t. score_of (analyze_resume flesch_reading_ease t))
      \<subseteq> {0, 14, 28, 42, 57, 71, 85, 100}"
    using v [of flesch_reading_ease] by blast
  moreover have "{0, 14, 28, 42, 57, 71, 85, 100}
      \<subseteq> range (\<lambda>t. score_of (analyze_resume flesch_reading_ease t))"
    using rangeI [of "\<lambda>t. score_of (analyze_resume flesch_reading_ease t)"]
      attained_0 attained_14 attained_28 attained_42 attained_57 attained_71 attained_85
      attained_100
    by (metis empty_subsetI insert_subset)
  ultimately have "range (\<lambda>t. score_of (analyze_resume flesch_reading_ease t))
      = {0, 14, 28, 42, 57, 71, 85, 100}" by (rule subset_antisym)
  with v [of fre "text"] show ?thesis by blast
qed

theorem C9_score_values_witness:
  "suggestions_of (analyze_resume flesch_reading_ease ''led python a@b.c 1234567890'') \<noteq> []
   \<and> score_of (analyze_resume flesch_reading_ease ''led python a@b.c 1234567890'') \<le> 85
   \<and> score_of (analyze_resume flesch_reading_ease ''led python a@b.c 1234567890'') \<noteq> 100
   \<and> score_of (analyze_resume flesch_reading_ease ''led python a@b.c 1234567890'')
       \<in> {0, 14, 28, 42, 57, 71, 85, 100}"
proof -
  have "suggestions_of (analyze_resume flesch_reading_ease ''led python a@b.c 1234567890'') \<noteq> []"
    by (simp add: sample_suggestions)
  then show ?thesis
    using C9_score_values [of flesch_reading_ease "''led python a@b.c 1234567890''"] by blast
qed

text \<open>
  C10: on the empty text, with the fallback scorer, the analyser returns word count 0,
  readability 121.2 (the binary64 number nearest to it), which is not below 50, the nine
  suggestions for the four sections, the length, the verbs, the keywords, the email and the
  phone, and score 0.
\<close>

theorem C10_empty_text:
  "word_count_of (analyze_resume flesch_reading_ease []) = 0
   \<and> readability_of (analyze_resume flesch_reading_ease []) = fl (1212 / 10)
   \<and> \<not> readability_of (analyze_resume flesch_reading_ease []) < 50
   \<and> suggestions_of (analyze_resume flesch_reading_ease []) =
       [Missing_section ''education'', Missing_section ''experience'',
        Missing_section ''projects'', Missing_section ''skills'',
        Too_short, No_action_verbs, No_tech_keywords, No_email, No_phone]
   \<and> score_of (analyze_resume flesch_reading_ease []) = 0"
proof -
  have r: "readability_of (analyze_resume flesch_reading_ease []) = fl (1212 / 10)"
    by (simp add: readability_of_analyze flesch_empty)
  have n: "\<not> fl (1212 / 10) < 50" by (simp add: float_eval)
  have s: "suggestions_of (analyze_resume flesch_reading_ease []) =
       [Missing_section ''education'', Missing_section ''experience'',
        Missing_section ''projects'', Missing_section ''skills'',
        Too_short, No_action_verbs, No_tech_keywords, No_email, No_phone]"
    using n by (simp add: suggestions_of_analyze flesch_empty empty_counts lower_def
        required_sections_def action_verbs_def tech_keywords_def)
  have sc: "score_of (analyze_resume flesch_reading_ease []) = 0"
    by (simp add: score_of_analyze s score_values)
  show ?thesis
    using r n s sc by (simp add: word_count_of_analyze empty_counts)
qed

end
